theory Spec2Isabelle
  imports Complex_Main "HOL-Library.Word" "HOL-Library.Log_Nat"
begin

unbundle bit_operations_syntax

section \<open>Errors\<close>

text \<open>
  The exceptions of \<open>fpu.py\<close> that reach a caller.  \<open>NanException\<close> is the module's own
  class; the others are the interpreter's.  \<open>ValueError\<close> is what the built-in
  \<open>min\<close> and \<open>max\<close> raise on an empty argument (the specification calls it
  EmptyReductionError), \<open>AssertionError\<close> is the failed \<open>assert\<close> of \<open>nudge\<close>
  (InvalidDirection in the specification), \<open>NameError\<close> is the use of a global that was
  never bound, \<open>OSError\<close> stands for a failed library or symbol lookup, and
  \<open>UserError\<close> for whatever a caller's own computation raises.
\<close>

datatype error =
    NanException
  | ValueError
  | OverflowError
  | ZeroDivisionError
  | AssertionError
  | NameError
  | OSError
  | UserError string

section \<open>Rounding-control backend\<close>

subsection \<open>Host and module state\<close>

text \<open>
  What the module observes of its host: the string returned by \<open>platform.processor()\<close>,
  whether lines 27--30 of \<open>_init_libm\<close> complete (libm is found and both entry points
  resolve), whether \<open>cdll.msvcrt._controlfp\<close> resolves, and the bits of the control
  register that hold the rounding direction as the C99 primitives see it (\<open>0xC00\<close> on
  x86, for instance).
\<close>

record host =
  processor :: string
  libm_loads :: bool
  msvcrt_loads :: bool
  rc_field :: "32 word"

text \<open>
  The module's globals.  \<open>None\<close> is a name that is not bound.  \<open>_fegetround\<close> and
  \<open>_fesetround\<close> are always bound together, to one of two pairs of primitives.
  \<open>warned\<close> collects the messages passed to \<open>warnings.warn\<close>.
\<close>

datatype backend = Libm | Msvc

record module =
  fe_upward :: "int option"
  fe_downward :: "int option"
  primitives :: "backend option"
  warned :: "string list"

definition unbound :: module where
  "unbound = \<lparr>fe_upward = None, fe_downward = None, primitives = None, warned = []\<rparr>"

subsection \<open>Initialisation strategies\<close>

text \<open>
  \<^verbatim>\<open>
  processor = platform.processor()
  if processor == 'powerpc':
      _fe_upward, _fe_downward = 2, 3
  elif processor == 'sparc':
      _fe_upward, _fe_downward = 0x80000000, 0xC0000000
  else:
      _fe_upward, _fe_downward = 0x0800, 0x0400
  ...
  libm = cdll.LoadLibrary(find_library('m'))
  _fegetround, _fesetround = libm.fegetround, libm.fesetround
  \<close>
  The codes are assigned before the library is loaded: they stay assigned when the
  load fails.
\<close>

definition init_libm :: "host \<Rightarrow> module \<Rightarrow> (error + unit) \<times> module" where
  "init_libm h g =
     (let g1 =
        (if processor h = ''powerpc'' then g\<lparr>fe_upward := Some 2, fe_downward := Some 3\<rparr>
         else if processor h = ''sparc'' then
           g\<lparr>fe_upward := Some 0x80000000, fe_downward := Some 0xC0000000\<rparr>
         else g\<lparr>fe_upward := Some 0x0800, fe_downward := Some 0x0400\<rparr>)
      in if libm_loads h then (Inr (), g1\<lparr>primitives := Some Libm\<rparr>)
         else (Inl OSError, g1))"

text \<open>
  \<^verbatim>\<open>
  _controlfp = cdll.msvcrt._controlfp
  _fe_upward, _fe_downward = 0x0200, 0x0100
  def _fegetround():
      return _controlfp(0, 0)
  def _fesetround(flag):
      _controlfp(flag, 0x300)
  \<close>
  Here the lookup comes first: nothing is assigned when it fails.
\<close>

definition init_msvc :: "host \<Rightarrow> module \<Rightarrow> (error + unit) \<times> module" where
  "init_msvc h g =
     (if msvcrt_loads h then
        (Inr (), g\<lparr>fe_upward := Some 0x0200, fe_downward := Some 0x0100,
                    primitives := Some Msvc\<rparr>)
      else (Inl OSError, g))"

datatype strategy = InitLibm | InitMsvc

fun run_strategy :: "strategy \<Rightarrow> host \<Rightarrow> module \<Rightarrow> (error + unit) \<times> module" where
  "run_strategy InitLibm = init_libm"
| "run_strategy InitMsvc = init_msvc"

definition warning_text :: string where
  "warning_text =
     ''Cannot determine FPU control primitives. The fpu module is not correcly initialized.''"

text \<open>
  \<^verbatim>\<open>
  for _f in _init_libm, _init_msvc:
      try:
          _f()
          break
      except:
          pass
  else:
      warnings.warn(...)
  \<close>
  The loop returns the strategies it called, in order, with the globals it leaves.  The
  \<open>else\<close> branch of a \<open>for\<close> runs when the loop ends without \<open>break\<close>.  The bare
  \<open>except\<close> catches every exception, and \<open>warnings.warn\<close> under the interpreter's
  default filter reports the message and returns.
\<close>

fun init_loop :: "strategy list \<Rightarrow> host \<Rightarrow> module \<Rightarrow> strategy list \<times> module" where
  "init_loop [] h g = ([], g\<lparr>warned := warned g @ [warning_text]\<rparr>)"
| "init_loop (s # ss) h g =
     (case run_strategy s h g of
        (Inr u, g1) \<Rightarrow> ([s], g1)
      | (Inl e, g1) \<Rightarrow> (let (tried, g2) = init_loop ss h g1 in (s # tried, g2)))"

text \<open>
  Module initialisation: its outcome (it has no statement left that can raise), the
  strategies attempted and the resulting globals.
\<close>

definition initialise :: "host \<Rightarrow> (error + unit) \<times> strategy list \<times> module" where
  "initialise h = (Inr (), init_loop [InitLibm, InitMsvc] h unbound)"

subsection \<open>The native primitives\<close>

text \<open>
  The floating-point control register is a 32-bit word owned by the process.  The two
  pairs of primitives are outside the repository; they are modelled from their
  documented contracts.

  The vendor runtime's \<open>_controlfp(new, mask)\<close> replaces the bits of the control word
  selected by \<open>mask\<close> with those of \<open>new\<close> and returns the resulting control word (all
  of it); with \<open>mask = 0\<close> it only reads.
\<close>

definition controlfp :: "32 word \<Rightarrow> 32 word \<Rightarrow> 32 word \<Rightarrow> 32 word \<times> 32 word" where
  "controlfp new msk cw = (let cw1 = (cw AND NOT msk) OR (new AND msk) in (cw1, cw1))"

text \<open>
  C99 \<open>fegetround()\<close> returns the current rounding direction, which is the content of
  the rounding field of the register.  \<open>fesetround(r)\<close> establishes \<open>r\<close> when it is a
  rounding direction of the host and otherwise changes nothing (it then returns a
  nonzero value, which the module ignores).  Values cross the foreign-function
  boundary as C \<open>int\<close>: a Python integer is reduced modulo \<open>2 ^ 32\<close> on the way in
  and read back signed.
\<close>

fun fegetround :: "host \<Rightarrow> backend \<Rightarrow> 32 word \<Rightarrow> int" where
  "fegetround h Libm cw = sint (cw AND rc_field h)"
| "fegetround h Msvc cw = sint (fst (controlfp 0 0 cw))"

fun fesetround :: "host \<Rightarrow> backend \<Rightarrow> int \<Rightarrow> 32 word \<Rightarrow> 32 word" where
  "fesetround h Libm flag cw =
     (let r = word_of_int flag in
      if r AND NOT (rc_field h) = 0 then (cw AND NOT (rc_field h)) OR r else cw)"
| "fesetround h Msvc flag cw = snd (controlfp (word_of_int flag) 0x300 cw)"

text \<open>
  The bits of the value read by \<open>_fegetround()\<close> that encode the rounding direction:
  all of the rounding field for the C99 primitives, the bits under the runtime's
  rounding-control mask \<open>0x300\<close> for the vendor runtime.
\<close>

fun rounding_bits :: "host \<Rightarrow> backend \<Rightarrow> 32 word" where
  "rounding_bits h Libm = rc_field h"
| "rounding_bits h Msvc = 0x300"

definition rounding_mode :: "host \<Rightarrow> backend \<Rightarrow> 32 word \<Rightarrow> 32 word" where
  "rounding_mode h b cw = word_of_int (fegetround h b cw) AND rounding_bits h b"

subsection \<open>Scoped rounding executors\<close>

text \<open>
  A zero-argument computation runs against the control register: it returns a value
  or raises, and leaves the register in some state.
\<close>

type_synonym 'a computation = "32 word \<Rightarrow> (error + 'a) \<times> 32 word"

text \<open>
  \<^verbatim>\<open>
  def down(f):
      saved = _fegetround()
      try:
          _fesetround(_fe_downward)
          return f()
      finally:
          _fesetround(saved)
  \<close>
  Reading an unbound \<open>_fegetround\<close> raises before the \<open>try\<close> is entered; an unbound
  code raises inside it, so the \<open>finally\<close> clause still runs.
\<close>

definition down :: "host \<Rightarrow> module \<Rightarrow> 'a computation \<Rightarrow> 'a computation" where
  "down h g f cw =
     (case primitives g of
        None \<Rightarrow> (Inl NameError, cw)
      | Some b \<Rightarrow>
          (let saved = fegetround h b cw in
           case fe_downward g of
             None \<Rightarrow> (Inl NameError, fesetround h b saved cw)
           | Some code \<Rightarrow>
               (let (r, cw1) = f (fesetround h b code cw)
                in (r, fesetround h b saved cw1))))"

definition up :: "host \<Rightarrow> module \<Rightarrow> 'a computation \<Rightarrow> 'a computation" where
  "up h g f cw =
     (case primitives g of
        None \<Rightarrow> (Inl NameError, cw)
      | Some b \<Rightarrow>
          (let saved = fegetround h b cw in
           case fe_upward g of
             None \<Rightarrow> (Inl NameError, fesetround h b saved cw)
           | Some code \<Rightarrow>
               (let (r, cw1) = f (fesetround h b code cw)
                in (r, fesetround h b saved cw1))))"

subsection \<open>Example hosts and computations\<close>

definition linux_host :: host where
  "linux_host =
     \<lparr>processor = ''x86_64'', libm_loads = True, msvcrt_loads = False, rc_field = 0xC00\<rparr>"

definition windows_host :: host where
  "windows_host =
     \<lparr>processor = ''x86'', libm_loads = False, msvcrt_loads = True, rc_field = 0xC00\<rparr>"

definition bare_host :: host where
  "bare_host =
     \<lparr>processor = ''sparc'', libm_loads = False, msvcrt_loads = False,
        rc_field = 0xC0000000\<rparr>"

definition msvc_module :: module where
  "msvc_module = snd (snd (initialise windows_host))"

text \<open>A computation that switches to rounding downwards and then raises.\<close>

definition failing :: "unit computation" where
  "failing cw = (Inl (UserError ''boom''), snd (controlfp 0x100 0x300 cw))"

section \<open>Double-precision values\<close>

text \<open>
  A Python \<open>float\<close> is an IEEE 754 binary64 value.  \<open>Finite m e\<close> denotes the number
  \<open>m * 2 ^ e\<close>; the two zeros, which compare equal, are not told apart.  A finite
  double is a value with a significand below \<open>2 ^ 53\<close>, an exponent of at least
  \<open>-1074\<close> and a magnitude below \<open>2 ^ 1024\<close>; it is subnormal when its magnitude is
  below \<open>2 ^ -1022\<close>.
\<close>

datatype double = Finite int int | PInf | NInf | NaN

definition is_double :: "int \<Rightarrow> int \<Rightarrow> bool" where
  "is_double m e \<longleftrightarrow> \<bar>m\<bar> < 2 ^ 53 \<and> -1074 \<le> e \<and> bitlen \<bar>m\<bar> + e \<le> 1024"

text \<open>The real number denoted by a significand and an exponent.\<close>

definition dyadic :: "int \<Rightarrow> int \<Rightarrow> real" where
  "dyadic m e = of_int m * 2 powi e"

text \<open>
  \<open>m / 2 ^ k\<close> rounded to the nearest integer, a tie going to the even neighbour.
\<close>

definition nearest_even :: "int \<Rightarrow> nat \<Rightarrow> int" where
  "nearest_even m k =
     (let q = m div 2 ^ k; r = m mod 2 ^ k in
      if 2 * r > 2 ^ k \<or> (2 * r = 2 ^ k \<and> odd q) then q + 1 else q)"

text \<open>
  The exact value \<open>m * 2 ^ e\<close> rounded to a double in the default rounding direction
  (to nearest, ties to even): \<open>u\<close> is the exponent of the last place that a double of
  this magnitude keeps; a value that needs no lower place is kept as it is; a rounded
  magnitude of \<open>2 ^ 1024\<close> or more overflows to an infinity (a zero never does).
\<close>

definition to_double :: "int \<Rightarrow> int \<Rightarrow> double" where
  "to_double m e =
     (let u = max (e + bitlen \<bar>m\<bar> - 53) (-1074);
          q = (if u \<le> e then m else nearest_even m (nat (u - e)));
          x = (if u \<le> e then e else u)
      in if q \<noteq> 0 \<and> 1024 < bitlen \<bar>q\<bar> + x then (if 0 < m then PInf else NInf)
         else Finite q x)"

fun fadd :: "double \<Rightarrow> double \<Rightarrow> double" where
  "fadd (Finite m1 e1) (Finite m2 e2) =
     (let e = min e1 e2 in to_double (m1 * 2 ^ nat (e1 - e) + m2 * 2 ^ nat (e2 - e)) e)"
| "fadd NaN y = NaN"
| "fadd x NaN = NaN"
| "fadd PInf NInf = NaN"
| "fadd NInf PInf = NaN"
| "fadd PInf y = PInf"
| "fadd NInf y = NInf"
| "fadd x PInf = PInf"
| "fadd x NInf = NInf"

fun fmul :: "double \<Rightarrow> double \<Rightarrow> double" where
  "fmul (Finite m1 e1) (Finite m2 e2) = to_double (m1 * m2) (e1 + e2)"
| "fmul NaN y = NaN"
| "fmul x NaN = NaN"
| "fmul (Finite m e) PInf = (if m = 0 then NaN else if 0 < m then PInf else NInf)"
| "fmul (Finite m e) NInf = (if m = 0 then NaN else if 0 < m then NInf else PInf)"
| "fmul PInf (Finite m e) = (if m = 0 then NaN else if 0 < m then PInf else NInf)"
| "fmul NInf (Finite m e) = (if m = 0 then NaN else if 0 < m then NInf else PInf)"
| "fmul PInf PInf = PInf"
| "fmul PInf NInf = NInf"
| "fmul NInf PInf = NInf"
| "fmul NInf NInf = PInf"

text \<open>The comparisons \<open><\<close>, \<open>==\<close>, \<open>>\<close> and \<open><=\<close>; every comparison with NaN is false.\<close>

fun flt :: "double \<Rightarrow> double \<Rightarrow> bool" where
  "flt (Finite m1 e1) (Finite m2 e2) =
     (let e = min e1 e2 in m1 * 2 ^ nat (e1 - e) < m2 * 2 ^ nat (e2 - e))"
| "flt NaN y = False"
| "flt x NaN = False"
| "flt PInf y = False"
| "flt x NInf = False"
| "flt x PInf = True"
| "flt NInf y = True"

fun feq :: "double \<Rightarrow> double \<Rightarrow> bool" where
  "feq (Finite m1 e1) (Finite m2 e2) =
     (let e = min e1 e2 in m1 * 2 ^ nat (e1 - e) = m2 * 2 ^ nat (e2 - e))"
| "feq PInf y = (y = PInf)"
| "feq NInf y = (y = NInf)"
| "feq NaN y = False"
| "feq (Finite m e) y = False"

definition fgt :: "double \<Rightarrow> double \<Rightarrow> bool" where
  "fgt x y = flt y x"

definition fle :: "double \<Rightarrow> double \<Rightarrow> bool" where
  "fle x y \<longleftrightarrow> flt x y \<or> feq x y"

text \<open>
  \<open>numpy\<close>'s \<open>nan\<close> and the fields of \<open>finfo(float)\<close> that the module reads.
\<close>

definition nan :: double where
  "nan = NaN"

definition nmant :: int where
  "nmant = 52"

definition eps :: double where
  "eps = Finite 1 (-52)"

definition epsneg :: double where
  "epsneg = Finite 1 (-53)"

text \<open>
  \<open>math.frexp\<close>: the significand in \<open>[0.5, 1)\<close> (with the sign of the argument) and the
  exponent; zero, the infinities and NaN come back with exponent 0.
\<close>

fun frexp :: "double \<Rightarrow> double \<times> int" where
  "frexp (Finite m e) =
     (if m = 0 then (Finite m e, 0) else (Finite m (- bitlen \<bar>m\<bar>), bitlen \<bar>m\<bar> + e))"
| "frexp x = (x, 0)"

text \<open>\<open>int(x)\<close> truncates towards zero, and raises on NaN and on the infinities.\<close>

fun py_int :: "double \<Rightarrow> error + int" where
  "py_int (Finite m e) =
     Inr (if 0 \<le> e then m * 2 ^ nat e else sgn m * (\<bar>m\<bar> div 2 ^ nat (- e)))"
| "py_int NaN = Inl ValueError"
| "py_int x = Inl OverflowError"

text \<open>
  Python's numbers as the module mixes them: \<open>2 ** k\<close> on integers is an integer for
  \<open>k \<ge> 0\<close> and a float for \<open>k < 0\<close>; an integer that meets a float is converted to
  the nearest double first.
\<close>

datatype number = PyInt int | PyFloat double

fun as_double :: "number \<Rightarrow> double" where
  "as_double (PyInt i) = to_double i 0"
| "as_double (PyFloat x) = x"

definition pow2 :: "int \<Rightarrow> number" where
  "pow2 k = (if 0 \<le> k then PyInt (2 ^ nat k) else PyFloat (to_double 1 k))"

fun int_times :: "int \<Rightarrow> number \<Rightarrow> number" where
  "int_times d (PyInt i) = PyInt (d * i)"
| "int_times d (PyFloat x) = PyFloat (fmul (to_double d 0) x)"

subsection \<open>Notions used in the analysis of rounding\<close>

text \<open>
  Two doubles have the same value when they compare equal or are the same special value.
\<close>

definition same_value :: "double \<Rightarrow> double \<Rightarrow> bool" where
  "same_value x y \<longleftrightarrow> feq x y \<or> x = y"

text \<open>
  The exponent of the last place kept when \<open>m * 2 ^ e\<close> is rounded, and the overflow
  test of \<open>to_double\<close>.
\<close>

definition last_place :: "int \<Rightarrow> int \<Rightarrow> int" where
  "last_place m e = max (e + bitlen \<bar>m\<bar> - 53) (-1074)"

definition overflow :: "int \<Rightarrow> int \<Rightarrow> int \<Rightarrow> double \<Rightarrow> double" where
  "overflow m q x d =
     (if q \<noteq> 0 \<and> 1024 < bitlen \<bar>q\<bar> + x then (if 0 < m then PInf else NInf) else d)"

text \<open>
  The normal doubles, each by its one representation with a significand of exactly 53
  bits; the nonzero doubles that have none are the subnormal ones.
\<close>

definition is_normal :: "int \<Rightarrow> int \<Rightarrow> bool" where
  "is_normal m e \<longleftrightarrow> 2 ^ 52 \<le> \<bar>m\<bar> \<and> \<bar>m\<bar> < 2 ^ 53 \<and> -1074 \<le> e \<and> e \<le> 971"

text \<open>\<open>y\<close> lies strictly on the side of \<open>x\<close> given by the direction.\<close>

definition moved :: "int \<Rightarrow> double \<Rightarrow> double \<Rightarrow> bool" where
  "moved d x y = (if d = 1 then flt x y else flt y x)"

section \<open>Helper functions\<close>

text \<open>
  \<^verbatim>\<open>
  def isnan(x):
      return x != x
  \<close>
\<close>

definition isnan :: "double \<Rightarrow> bool" where
  "isnan x = (\<not> feq x x)"

text \<open>
  \<^verbatim>\<open>
  def nudge(x, dir):
      assert dir in (-1, +1)
      f = dir * 2 ** (math.frexp(x)[1] - 1)
      y = x + f * finfo.epsneg
      if y != x:
          return y
      else:
          return x + f * finfo.eps
  \<close>
\<close>

definition nudge :: "double \<Rightarrow> int \<Rightarrow> error + double" where
  "nudge x dir =
     (if dir \<noteq> -1 \<and> dir \<noteq> 1 then Inl AssertionError
      else
        (let f = int_times dir (pow2 (snd (frexp x) - 1));
             y = fadd x (fmul (as_double f) epsneg)
         in if \<not> feq y x then Inr y
            else Inr (fadd x (fmul (as_double f) eps))))"

text \<open>
  \<^verbatim>\<open>
  def intrepr(x):
      m, e = math.frexp(x)
      return int(m * 2 ** (finfo.nmant + 1)), e - (finfo.nmant + 1)
  \<close>
\<close>

definition intrepr :: "double \<Rightarrow> error + int \<times> int" where
  "intrepr x =
     (let (m, e) = frexp x in
      case py_int (fmul m (as_double (PyInt (2 ^ nat (nmant + 1))))) of
        Inl err \<Rightarrow> Inl err
      | Inr n \<Rightarrow> Inr (n, e - (nmant + 1)))"

subsection \<open>NaN-aware reductions\<close>

text \<open>
  \<^verbatim>\<open>
  def ensure_nonan(x):
      if isnan(x):
          raise NanException
      return x
  \<close>
\<close>

definition ensure_nonan :: "double \<Rightarrow> error + double" where
  "ensure_nonan x = (if isnan x then Inl NanException else Inr x)"

text \<open>
  The built-in \<open>min\<close> and \<open>max\<close> over the generator \<open>(ensure_nonan(x) for x in l)\<close>:
  items are drawn one at a time, the first becomes the current best, a later one
  replaces it when it compares strictly better (\<open><\<close> for \<open>min\<close>, \<open>>\<close> for \<open>max\<close>), and
  an exhausted generator that produced nothing raises \<open>ValueError\<close>.  An exception
  raised while an item is drawn ends the reduction.
\<close>

fun builtin_reduce ::
  "(double \<Rightarrow> double \<Rightarrow> bool) \<Rightarrow> double list \<Rightarrow> double option \<Rightarrow> error + double" where
  "builtin_reduce better [] None = Inl ValueError"
| "builtin_reduce better [] (Some best) = Inr best"
| "builtin_reduce better (x # l) cur =
     (case ensure_nonan x of
        Inl err \<Rightarrow> Inl err
      | Inr item \<Rightarrow>
          builtin_reduce better l
            (case cur of None \<Rightarrow> Some item
             | Some best \<Rightarrow> if better item best then Some item else Some best))"

text \<open>
  \<^verbatim>\<open>
  def min(l):
      try:
          return __builtin__.min(ensure_nonan(x) for x in l)
      except NanException:
          return nan
  \<close>
  and the same for \<open>max\<close>.  Only \<open>NanException\<close> is caught.
\<close>

definition min_fpu :: "double list \<Rightarrow> error + double" where
  "min_fpu l =
     (case builtin_reduce flt l None of
        Inl NanException \<Rightarrow> Inr nan
      | Inl err \<Rightarrow> Inl err
      | Inr v \<Rightarrow> Inr v)"

definition max_fpu :: "double list \<Rightarrow> error + double" where
  "max_fpu l =
     (case builtin_reduce fgt l None of
        Inl NanException \<Rightarrow> Inr nan
      | Inl err \<Rightarrow> Inl err
      | Inr v \<Rightarrow> Inr v)"

subsection \<open>Exact integer power\<close>

text \<open>
  \<^verbatim>\<open>
  l=();
  while n > 0:
      n, y= divmod(n, 2)
      l=(y, l)
  \<close>
  The nested pair \<open>(y, l)\<close> is a stack: the digit pushed last (the most significant
  one) is on top.
\<close>

function digits :: "int \<Rightarrow> int list \<Rightarrow> int list" where
  "digits n l = (if n > 0 then digits (n div 2) ((n mod 2) # l) else l)"
  by pat_completeness auto
termination
  by (relation "measure (\<lambda>(n, l). nat n)") auto

text \<open>
  \<^verbatim>\<open>
  result = 1
  while l:
      y, l = l
      if y:
          result = result * result * x
      else:
          result = result * result
  return result
  \<close>
\<close>

fun square_multiply :: "'a::monoid_mult \<Rightarrow> int list \<Rightarrow> 'a \<Rightarrow> 'a" where
  "square_multiply x [] result = result"
| "square_multiply x (y # l) result =
     square_multiply x l (if y \<noteq> 0 then result * result * x else result * result)"

text \<open>
  \<open>power\<close> for an integer exponent (the \<open>isinstance\<close> test of the source holds; the other
  branch hands over to the argument type's own \<open>**\<close>).  The quotient \<open>1/y\<close> of the
  negative branch is the argument type's own division: it is the parameter \<open>recip\<close>.
\<close>

function power_fpu :: "('a \<Rightarrow> error + 'a) \<Rightarrow> 'a::monoid_mult \<Rightarrow> int \<Rightarrow> error + 'a" where
  "power_fpu recip x n =
     (if n < 0 then
        (case power_fpu recip x (- n) of Inl e \<Rightarrow> Inl e | Inr p \<Rightarrow> recip p)
      else Inr (square_multiply x (digits n []) 1))"
  by pat_completeness auto
termination
  by (relation "measure (\<lambda>(r, x, n). if n < 0 then 1 else 0)") auto

text \<open>
  The module is Python 2 (\<open>__builtin__\<close>, \<open>long\<close>) and does not import \<open>division\<close> from
  \<open>__future__\<close>: on integers \<open>1/y\<close> is floor division, and raises on \<open>y = 0\<close>.
\<close>

definition int_recip :: "int \<Rightarrow> error + int" where
  "int_recip y = (if y = 0 then Inl ZeroDivisionError else Inr (1 div y))"

declare digits.simps [simp del] power_fpu.simps [simp del]

section \<open>Properties of the rounding-control backend\<close>

lemma word_restore: "((a AND NOT m) OR (s AND m)) AND m = s AND (m::32 word)"
  by (simp add: bit_eq_iff bit_and_iff bit_or_iff bit_not_iff) blast

lemma word_keep: "((a AND NOT m) OR (s AND m)) AND NOT m = a AND NOT (m::32 word)"
  by (simp add: bit_eq_iff bit_and_iff bit_or_iff bit_not_iff) blast

lemma controlfp_snd: "snd (controlfp new m cw) = (cw AND NOT m) OR (new AND m)"
  by (simp add: controlfp_def Let_def)

lemma controlfp_read: "fst (controlfp 0 0 cw) = cw"
  by (simp add: controlfp_def Let_def)

lemma msvc_set_bits:
  "fesetround h Msvc flag cw = (cw AND NOT 0x300) OR (word_of_int flag AND 0x300)"
  by (simp only: fesetround.simps controlfp_snd)

lemma libm_set_saved:
  "fesetround h Libm (fegetround h Libm cw) cw1
   = (cw1 AND NOT (rc_field h)) OR (cw AND rc_field h)"
proof -
  have "(cw AND rc_field h) AND NOT (rc_field h) = 0"
    by (simp add: bit_eq_iff bit_and_iff bit_not_iff)
  then show ?thesis by simp
qed

lemma libm_get_set:
  "fegetround h Libm (fesetround h Libm (fegetround h Libm cw) cw1) = fegetround h Libm cw"
proof -
  have "((cw1 AND NOT (rc_field h)) OR (cw AND rc_field h)) AND rc_field h = cw AND rc_field h"
    by (rule word_restore)
  then show ?thesis
    unfolding libm_set_saved by (simp only: fegetround.simps)
qed

lemma msvc_mode_set:
  "rounding_mode h Msvc (fesetround h Msvc (fegetround h Msvc cw) cw1) = rounding_mode h Msvc cw"
proof -
  have get: "\<And>c. word_of_int (fegetround h Msvc c) = c"
    by (simp add: controlfp_read)
  have "fesetround h Msvc (fegetround h Msvc cw) cw1 = (cw1 AND NOT 0x300) OR (cw AND 0x300)"
    by (simp only: msvc_set_bits get)
  then show ?thesis
    by (simp only: rounding_mode_def get rounding_bits.simps word_restore)
qed

lemma mode_get_set:
  "rounding_mode h b (fesetround h b (fegetround h b cw) cw1) = rounding_mode h b cw"
proof (cases b)
  case Libm
  then show ?thesis by (simp only: rounding_mode_def libm_get_set)
next
  case Msvc
  then show ?thesis by (simp only: msvc_mode_set)
qed

text \<open>Whatever the computation does, the last write of an executor is the saved value.\<close>

lemma up_last_write:
  "primitives g = Some b \<Longrightarrow>
   \<exists>cw1. snd (up h g f cw) = fesetround h b (fegetround h b cw) cw1"
  by (auto simp: up_def Let_def split: option.splits prod.splits)

lemma down_last_write:
  "primitives g = Some b \<Longrightarrow>
   \<exists>cw1. snd (down h g f cw) = fesetround h b (fegetround h b cw) cw1"
  by (auto simp: down_def Let_def split: option.splits prod.splits)

lemma msvc_module_eq:
  "msvc_module =
     \<lparr>fe_upward = Some 0x200, fe_downward = Some 0x100, primitives = Some Msvc, warned = []\<rparr>"
  by (simp add: msvc_module_def initialise_def windows_host_def init_libm_def init_msvc_def
        unbound_def)

lemma word_split: "(a AND NOT m) OR (a AND m) = (a::32 word)"
  by (simp add: bit_eq_iff bit_and_iff bit_or_iff bit_not_iff) blast

lemma word_or_keep: "(x OR y) AND NOT m = (x AND NOT m) OR (y AND NOT (m::32 word))"
  by (simp add: bit_eq_iff bit_and_iff bit_or_iff bit_not_iff) blast

lemma msvc_set_other_bits: "fesetround h Msvc flag cw AND NOT 0x300 = cw AND NOT 0x300"
  unfolding msvc_set_bits by (rule word_keep)

lemma msvc_set_saved:
  assumes "cw1 AND NOT 0x300 = cw AND NOT 0x300"
  shows "fesetround h Msvc (fegetround h Msvc cw) cw1 = cw"
proof -
  have get: "word_of_int (fegetround h Msvc cw) = cw" by (simp add: controlfp_read)
  have "fesetround h Msvc (fegetround h Msvc cw) cw1 = (cw1 AND NOT 0x300) OR (cw AND 0x300)"
    by (simp only: msvc_set_bits get)
  then show ?thesis unfolding assms by (simp only: word_split)
qed

lemma up_final_write:
  "primitives g = Some b \<Longrightarrow>
   snd (up h g f cw) =
     fesetround h b (fegetround h b cw)
       (case fe_upward g of None \<Rightarrow> cw | Some code \<Rightarrow> snd (f (fesetround h b code cw)))"
  by (simp add: up_def Let_def split: option.splits prod.splits)

lemma down_final_write:
  "primitives g = Some b \<Longrightarrow>
   snd (down h g f cw) =
     fesetround h b (fegetround h b cw)
       (case fe_downward g of None \<Rightarrow> cw | Some code \<Rightarrow> snd (f (fesetround h b code cw)))"
  by (simp add: down_def Let_def split: option.splits prod.splits)

text \<open>
  With the vendor runtime \<open>_fegetround()\<close> returns the whole control word and
  \<open>_fesetround\<close> writes under the mask \<open>0x300\<close> only.  When the computation leaves the
  bits outside the mask alone, the executors restore the whole control word.
\<close>

lemma msvc_whole_word_restored:
  assumes b: "primitives g = Some Msvc"
    and keeps: "\<And>c. snd (f c) AND NOT 0x300 = c AND NOT 0x300"
  shows "snd (up h g f cw) = cw \<and> snd (down h g f cw) = cw"
proof -
  have k: "\<And>code. snd (f (fesetround h Msvc code cw)) AND NOT 0x300 = cw AND NOT 0x300"
    unfolding keeps by (rule msvc_set_other_bits)
  have any: "\<And>code. (case code of None \<Rightarrow> cw | Some c \<Rightarrow> snd (f (fesetround h Msvc c cw)))
                 AND NOT 0x300 = cw AND NOT 0x300"
  proof -
    fix code :: "int option"
    show "(case code of None \<Rightarrow> cw | Some c \<Rightarrow> snd (f (fesetround h Msvc c cw)))
                 AND NOT 0x300 = cw AND NOT 0x300"
      by (cases code) (simp_all only: option.case k)
  qed
  have u: "snd (up h g f cw) = cw"
    unfolding up_final_write [OF b] by (rule msvc_set_saved) (rule any)
  have d: "snd (down h g f cw) = cw"
    unfolding down_final_write [OF b] by (rule msvc_set_saved) (rule any)
  from u d show ?thesis by (rule conjI)
qed

text \<open>
  C1.  For every computation \<open>f\<close>, every starting control word and either bound
  backend, after \<open>up(f)\<close> or \<open>down(f)\<close> finishes -- whether \<open>f\<close> returned or raised --
  the active rounding mode, which is the rounding-control field of the value read by
  \<open>_fegetround()\<close>, equals the one read immediately before the call.  With the C99
  primitives, which return that field alone, the value read is equal as a whole.
\<close>

theorem scoped_rounding_restored:
  "primitives g = Some b \<Longrightarrow>
     rounding_mode h b (snd (up h g f cw)) = rounding_mode h b cw
   \<and> rounding_mode h b (snd (down h g f cw)) = rounding_mode h b cw
   \<and> (b = Libm \<longrightarrow> fegetround h b (snd (up h g f cw)) = fegetround h b cw
                \<and> fegetround h b (snd (down h g f cw)) = fegetround h b cw)"
proof -
  assume b: "primitives g = Some b"
  from up_last_write [OF b, of h f cw] obtain c1 where
    u: "snd (up h g f cw) = fesetround h b (fegetround h b cw) c1" by blast
  from down_last_write [OF b, of h f cw] obtain c2 where
    d: "snd (down h g f cw) = fesetround h b (fegetround h b cw) c2" by blast
  show ?thesis
    unfolding u d using mode_get_set [of h b cw] libm_get_set [of h cw] by simp
qed

theorem scoped_rounding_restored_witness:
  "primitives msvc_module = Some Msvc
   \<and> fst (up windows_host msvc_module failing 0x9021F) = Inl (UserError ''boom'')
   \<and> rounding_mode windows_host Msvc (snd (up windows_host msvc_module failing 0x9021F)) = 0x200
   \<and> rounding_mode windows_host Msvc 0x9021F = 0x200"
  using scoped_rounding_restored [of msvc_module Msvc windows_host failing "0x9021F"]
  by (simp add: msvc_module_eq up_def failing_def controlfp_def rounding_mode_def)

text \<open>
  C2.  \<open>_init_libm\<close> selects the codes \<open>(2, 3)\<close> when the processor is reported as
  \<open>powerpc\<close>, \<open>(0x80000000, 0xC0000000)\<close> when it is reported as \<open>sparc\<close>, and
  \<open>(0x0800, 0x0400)\<close> for every other processor; \<open>_init_msvc\<close> selects
  \<open>(0x0200, 0x0100)\<close>, and its set operation changes the control word under the mask
  \<open>0x300\<close> only: the bits under the mask become those of the flag, all others stay.
\<close>

theorem init_code_pairs:
  "(fe_upward (snd (init_libm h g)), fe_downward (snd (init_libm h g))) =
     (if processor h = ''powerpc'' then (Some 2, Some 3)
      else if processor h = ''sparc'' then (Some 0x80000000, Some 0xC0000000)
      else (Some 0x0800, Some 0x0400))
   \<and> (msvcrt_loads h \<longrightarrow>
        (fe_upward (snd (init_msvc h g)), fe_downward (snd (init_msvc h g)))
          = (Some 0x0200, Some 0x0100))
   \<and> fesetround h Msvc flag cw AND NOT 0x300 = cw AND NOT 0x300
   \<and> fesetround h Msvc flag cw AND 0x300 = word_of_int flag AND 0x300"
proof -
  have "fesetround h Msvc flag cw AND NOT 0x300 = cw AND NOT 0x300"
    unfolding msvc_set_bits by (rule word_keep)
  moreover have "fesetround h Msvc flag cw AND 0x300 = word_of_int flag AND 0x300"
    unfolding msvc_set_bits by (rule word_restore)
  ultimately show ?thesis
    by (simp add: init_libm_def init_msvc_def Let_def)
qed

theorem init_code_pairs_witness:
  "msvcrt_loads windows_host
   \<and> (fe_upward (snd (init_msvc windows_host unbound)),
       fe_downward (snd (init_msvc windows_host unbound))) = (Some 0x0200, Some 0x0100)
   \<and> (fe_upward (snd (init_libm bare_host unbound)),
       fe_downward (snd (init_libm bare_host unbound))) = (Some 0x80000000, Some 0xC0000000)
   \<and> (fe_upward (snd (init_libm linux_host unbound)),
       fe_downward (snd (init_libm linux_host unbound))) = (Some 0x0800, Some 0x0400)
   \<and> fesetround windows_host Msvc 0x0200 0x9011F = 0x9021F"
  using init_code_pairs [of windows_host unbound 0 0]
        init_code_pairs [of bare_host unbound 0 0]
        init_code_pairs [of linux_host unbound 0 0]
  by (simp add: init_libm_def init_msvc_def windows_host_def bare_host_def linux_host_def
        controlfp_def)

lemma init_loop_first_success:
  "fst (run_strategy s h g) = Inr u \<Longrightarrow>
   init_loop (s # ss) h g = ([s], snd (run_strategy s h g))"
  by (cases "run_strategy s h g") simp

text \<open>
  C3.  Initialisation calls \<open>_init_libm\<close> first and \<open>_init_msvc\<close> second.  A strategy
  that completes ends the loop: whatever strategies follow it are not called, and its
  primitives are the bound ones.  When both fail, initialisation still completes: the
  warning is issued once and the primitives stay unbound.
\<close>

theorem initialise_strategy_order:
  "fst (initialise h) = Inr ()
   \<and> (\<forall>s ss g. fst (run_strategy s h g) = Inr () \<longrightarrow>
         init_loop (s # ss) h g = ([s], snd (run_strategy s h g)))
   \<and> (libm_loads h \<longrightarrow>
        fst (snd (initialise h)) = [InitLibm]
        \<and> primitives (snd (snd (initialise h))) = Some Libm
        \<and> warned (snd (snd (initialise h))) = [])
   \<and> (\<not> libm_loads h \<and> msvcrt_loads h \<longrightarrow>
        fst (snd (initialise h)) = [InitLibm, InitMsvc]
        \<and> primitives (snd (snd (initialise h))) = Some Msvc
        \<and> warned (snd (snd (initialise h))) = [])
   \<and> (\<not> libm_loads h \<and> \<not> msvcrt_loads h \<longrightarrow>
        fst (snd (initialise h)) = [InitLibm, InitMsvc]
        \<and> primitives (snd (snd (initialise h))) = None
        \<and> warned (snd (snd (initialise h))) = [warning_text])"
  using init_loop_first_success [of _ h]
  by (simp add: initialise_def init_libm_def init_msvc_def unbound_def Let_def)

theorem initialise_strategy_order_witness:
  "libm_loads linux_host
   \<and> initialise linux_host
       = (Inr (), [InitLibm],
          \<lparr>fe_upward = Some 0x0800, fe_downward = Some 0x0400,
             primitives = Some Libm, warned = []\<rparr>)
   \<and> \<not> libm_loads windows_host \<and> msvcrt_loads windows_host
   \<and> fst (snd (initialise windows_host)) = [InitLibm, InitMsvc]
   \<and> primitives (snd (snd (initialise windows_host))) = Some Msvc
   \<and> \<not> libm_loads bare_host \<and> \<not> msvcrt_loads bare_host
   \<and> fst (initialise bare_host) = Inr ()
   \<and> primitives (snd (snd (initialise bare_host))) = None
   \<and> warned (snd (snd (initialise bare_host))) = [warning_text]
   \<and> fst (run_strategy InitLibm linux_host unbound) = Inr ()
   \<and> init_loop [InitLibm, InitMsvc] linux_host unbound
        = ([InitLibm], snd (run_strategy InitLibm linux_host unbound))"
  using initialise_strategy_order [of linux_host]
        initialise_strategy_order [of windows_host]
        initialise_strategy_order [of bare_host]
  by (simp add: initialise_def init_libm_def init_msvc_def unbound_def
        windows_host_def bare_host_def linux_host_def)

section \<open>Properties of the float helpers\<close>

lemma bitlen_le: "\<bar>m\<bar> < 2 ^ n \<Longrightarrow> bitlen \<bar>m\<bar> \<le> int n"
proof (cases "m = 0")
  case True
  then show ?thesis by simp
next
  case False
  assume b: "\<bar>m\<bar> < 2 ^ n"
  from False have pos: "0 < \<bar>m\<bar>" by simp
  from bitlen_bounds [OF pos] have "2 ^ nat (bitlen \<bar>m\<bar> - 1) \<le> \<bar>m\<bar>" by simp
  with b have "(2::int) ^ nat (bitlen \<bar>m\<bar> - 1) < 2 ^ n" by linarith
  then have "nat (bitlen \<bar>m\<bar> - 1) < n" by simp
  then show ?thesis by linarith
qed

lemma bitlen_le_53: "\<bar>m\<bar> < 2 ^ 53 \<Longrightarrow> bitlen \<bar>m\<bar> \<le> 53"
  using bitlen_le [of m 53] by simp

lemma bitlen_ge_1: "m \<noteq> 0 \<Longrightarrow> 1 \<le> bitlen \<bar>m\<bar>"
  using bitlen_eq_zero_iff [of "\<bar>m\<bar>"] bitlen_nonneg [of "\<bar>m\<bar>"] by (simp add: order_less_le)

lemma two_53: "to_double (2 ^ 53) 0 = Finite (2 ^ 52) 1"
  by code_simp

lemma nearest_even_exact: "nearest_even (a * 2 ^ k) k = a"
  by (simp add: nearest_even_def Let_def)

lemma bitlen_scaled: "m \<noteq> 0 \<Longrightarrow> bitlen \<bar>m * 2 ^ k\<bar> = bitlen \<bar>m\<bar> + int k"
proof -
  assume "m \<noteq> 0"
  then have "0 < \<bar>m\<bar>" by simp
  then have "bitlen (\<bar>m\<bar> * 2 ^ k) = bitlen \<bar>m\<bar> + int k" by (rule bitlen_pow2)
  then show ?thesis by (simp add: abs_mult)
qed

lemma to_double_exact_shift:
  assumes m: "m \<noteq> 0" and L: "bitlen \<bar>m\<bar> = int j + 1" and jk: "int j + int k = 52"
  shows "to_double (m * 2 ^ k * 2 ^ j) (- int j) = Finite (m * 2 ^ k) 0"
proof -
  have mk: "m * 2 ^ k \<noteq> 0" using m by simp
  have lenq: "bitlen \<bar>m * 2 ^ k\<bar> = int j + 1 + int k"
    using bitlen_scaled [OF m, of k] L by simp
  have len: "bitlen \<bar>m * 2 ^ k * 2 ^ j\<bar> = int j + 1 + int k + int j"
    using bitlen_scaled [OF mk, of j] lenq by simp
  have u: "max (- int j + bitlen \<bar>m * 2 ^ k * 2 ^ j\<bar> - 53) (-1074) = 0"
    unfolding len using jk by simp
  have fits: "\<not> 1024 < bitlen \<bar>m * 2 ^ k\<bar> + 0"
    unfolding lenq using jk by simp
  show ?thesis
  proof (cases "j = 0")
    case True
    then show ?thesis
      using u fits unfolding to_double_def Let_def by simp
  next
    case False
    then have gt: "\<not> (0 \<le> - int j)" by simp
    have ne: "nearest_even (m * 2 ^ k * 2 ^ j) (nat (0 - (- int j))) = m * 2 ^ k"
      using nearest_even_exact [of "m * 2 ^ k" j] by simp
    show ?thesis
      unfolding to_double_def Let_def u ne using gt fits by simp
  qed
qed

lemma scaled_mantissa:
  assumes m: "m \<noteq> 0" and b: "\<bar>m\<bar> < 2 ^ 53"
  shows "to_double (m * 2 ^ 52) (1 - bitlen \<bar>m\<bar>) = Finite (m * 2 ^ nat (53 - bitlen \<bar>m\<bar>)) 0"
proof -
  let ?L = "bitlen \<bar>m\<bar>"
  let ?j = "nat (?L - 1)" and ?k = "nat (53 - ?L)"
  have L1: "1 \<le> ?L" using m by (rule bitlen_ge_1)
  have L53: "?L \<le> 53" using b by (rule bitlen_le_53)
  have L: "?L = int ?j + 1" using L1 by simp
  have jk: "int ?j + int ?k = 52" using L1 L53 by simp
  have "?k + ?j = 52" using L1 L53 by linarith
  then have "(2::int) ^ ?k * 2 ^ ?j = 2 ^ 52"
    by (simp only: power_add [symmetric])
  then have prod: "m * 2 ^ ?k * 2 ^ ?j = m * 2 ^ 52" by (simp only: mult.assoc)
  have e: "- int ?j = 1 - ?L" using L1 by simp
  show ?thesis
    using to_double_exact_shift [OF m L jk] unfolding prod e .
qed

lemma dyadic_scale: "dyadic (m * 2 ^ k) (e - int k) = dyadic m e"
proof -
  have "(2::real) powi e = 2 powi (int k) * 2 powi (e - int k)"
    using power_int_add [of "2::real" "int k" "e - int k"] by simp
  then show ?thesis by (simp add: dyadic_def)
qed

lemma intrepr_finite:
  assumes m: "m \<noteq> 0" and d: "is_double m e"
  shows "intrepr (Finite m e) = Inr (m * 2 ^ nat (53 - bitlen \<bar>m\<bar>), bitlen \<bar>m\<bar> + e - 53)"
proof -
  have b: "\<bar>m\<bar> < 2 ^ 53" using d by (simp add: is_double_def)
  have fr: "frexp (Finite m e) = (Finite m (- bitlen \<bar>m\<bar>), bitlen \<bar>m\<bar> + e)"
    using m by simp
  have sc: "as_double (PyInt (2 ^ nat (nmant + 1))) = Finite (2 ^ 52) 1"
    using two_53 by (simp add: nmant_def)
  have "fmul (Finite m (- bitlen \<bar>m\<bar>)) (Finite (2 ^ 52) 1)
        = Finite (m * 2 ^ nat (53 - bitlen \<bar>m\<bar>)) 0"
    using scaled_mantissa [OF m b] by (simp add: add.commute)
  then show ?thesis
    unfolding intrepr_def fr sc by (simp add: nmant_def)
qed

text \<open>
  C6.  For every finite nonzero double \<open>x\<close>, \<open>intrepr(x)\<close> returns a pair
  \<open>(n, k)\<close> of integers with \<open>n * 2 ^ k = x\<close> exactly.
\<close>

theorem intrepr_round_trip:
  "is_double m e \<Longrightarrow> m \<noteq> 0 \<Longrightarrow>
   \<exists>n k. intrepr (Finite m e) = Inr (n, k) \<and> dyadic n k = dyadic m e"
proof -
  assume d: "is_double m e" and m: "m \<noteq> 0"
  let ?k = "nat (53 - bitlen \<bar>m\<bar>)"
  have "bitlen \<bar>m\<bar> \<le> 53" using d by (simp add: is_double_def bitlen_le_53)
  then have "bitlen \<bar>m\<bar> + e - 53 = e - int ?k" by simp
  then have "dyadic (m * 2 ^ ?k) (bitlen \<bar>m\<bar> + e - 53) = dyadic m e"
    by (simp only: dyadic_scale)
  then show ?thesis using intrepr_finite [OF m d] by simp
qed

theorem intrepr_round_trip_witness:
  "is_double 5 (-2) \<and> (5::int) \<noteq> 0
   \<and> intrepr (Finite 5 (-2)) = Inr (5629499534213120, -52)
   \<and> dyadic 5629499534213120 (-52) = dyadic 5 (-2)"
proof -
  have d: "is_double 5 (-2)" by code_simp
  have v: "intrepr (Finite 5 (-2)) = Inr (5629499534213120, -52)" by code_simp
  from intrepr_round_trip [OF d] v show ?thesis using d by simp
qed

text \<open>
  C8, as stated, fails: the first component of \<open>intrepr(1.5)\<close> is \<open>3 * 2 ^ 51\<close>, which
  is even.
\<close>

theorem intrepr_one_and_a_half_even:
  "intrepr (Finite 3 (-1)) = Inr (6755399441055744, -52)
   \<and> \<not> odd (6755399441055744::int)"
proof -
  have "intrepr (Finite 3 (-1)) = Inr (6755399441055744, -52)" by code_simp
  then show ?thesis by simp
qed

text \<open>
  C8, amended.  \<open>intrepr(1.5)\<close> returns the pair \<open>(3 * 2 ^ 51, -52)\<close>, which satisfies
  \<open>n * 2 ^ k = 1.5\<close>; its first component is the significand scaled to 53 bits
  (\<open>2 ^ 52 \<le> n < 2 ^ 53\<close>) and is not reduced to an odd integer.
\<close>

theorem intrepr_one_and_a_half:
  "intrepr (Finite 3 (-1)) = Inr (3 * 2 ^ 51, -52)
   \<and> dyadic (3 * 2 ^ 51) (-52) = 3 / 2
   \<and> dyadic 3 (-1) = 3 / 2
   \<and> 2 ^ 52 \<le> (3 * 2 ^ 51 :: int) \<and> (3 * 2 ^ 51 :: int) < 2 ^ 53"
proof -
  have "intrepr (Finite 3 (-1)) = Inr (6755399441055744, -52)" by code_simp
  moreover have "dyadic (3 * 2 ^ 51) (-52) = 3 / 2"
    by (simp add: dyadic_def power_int_minus field_simps)
  moreover have "dyadic 3 (-1) = 3 / 2"
    by (simp add: dyadic_def power_int_minus)
  ultimately show ?thesis by simp
qed

lemma dyadic_align:
  "e \<le> e1 \<Longrightarrow> dyadic m e1 = of_int (m * 2 ^ nat (e1 - e)) * 2 powi e"
proof -
  assume le: "e \<le> e1"
  have "(2::real) powi e1 = 2 powi (e1 - e) * 2 powi e"
    using power_int_add [of "2::real" "e1 - e" e] by simp
  moreover have "(2::real) powi (e1 - e) = 2 ^ nat (e1 - e)"
    using le by (simp add: power_int_def)
  ultimately show ?thesis by (simp add: dyadic_def)
qed

lemma flt_Finite:
  "flt (Finite m1 e1) (Finite m2 e2) \<longleftrightarrow> dyadic m1 e1 < dyadic m2 e2"
proof -
  let ?e = "min e1 e2"
  have pos: "(0::real) < 2 powi ?e" by simp
  have a: "dyadic m1 e1 = of_int (m1 * 2 ^ nat (e1 - ?e)) * 2 powi ?e"
    by (rule dyadic_align) simp
  have b: "dyadic m2 e2 = of_int (m2 * 2 ^ nat (e2 - ?e)) * 2 powi ?e"
    by (rule dyadic_align) simp
  have "dyadic m1 e1 < dyadic m2 e2 \<longleftrightarrow>
        (of_int (m1 * 2 ^ nat (e1 - ?e)) :: real) < of_int (m2 * 2 ^ nat (e2 - ?e))"
    unfolding a b using pos by (simp only: mult_less_cancel_right_pos)
  then show ?thesis by (simp only: flt.simps Let_def of_int_less_iff)
qed

lemma feq_Finite:
  "feq (Finite m1 e1) (Finite m2 e2) \<longleftrightarrow> dyadic m1 e1 = dyadic m2 e2"
proof -
  let ?e = "min e1 e2"
  have pos: "(2::real) powi ?e \<noteq> 0" by simp
  have a: "dyadic m1 e1 = of_int (m1 * 2 ^ nat (e1 - ?e)) * 2 powi ?e"
    by (rule dyadic_align) simp
  have b: "dyadic m2 e2 = of_int (m2 * 2 ^ nat (e2 - ?e)) * 2 powi ?e"
    by (rule dyadic_align) simp
  have "dyadic m1 e1 = dyadic m2 e2 \<longleftrightarrow>
        (of_int (m1 * 2 ^ nat (e1 - ?e)) :: real) = of_int (m2 * 2 ^ nat (e2 - ?e))"
    unfolding a b using pos by (simp only: mult_cancel_right) simp
  then show ?thesis by (simp only: feq.simps Let_def of_int_eq_iff)
qed

lemma isnan_iff: "isnan x \<longleftrightarrow> x = NaN"
  by (cases x) (simp_all add: isnan_def Let_def)

lemma fle_refl: "x \<noteq> NaN \<Longrightarrow> fle x x"
  by (cases x) (simp_all add: fle_def Let_def)

lemma flt_imp_fle: "flt x y \<Longrightarrow> fle x y"
  by (simp add: fle_def)

lemma fle_total: "x \<noteq> NaN \<Longrightarrow> y \<noteq> NaN \<Longrightarrow> \<not> flt x y \<Longrightarrow> fle y x"
  by (cases x; cases y) (auto simp: fle_def flt_Finite feq_Finite simp del: flt.simps(1) feq.simps(1))

lemma fle_trans: "fle x y \<Longrightarrow> fle y z \<Longrightarrow> fle x z"
  by (cases x; cases y; cases z) (auto simp: fle_def flt_Finite feq_Finite simp del: flt.simps(1) feq.simps(1))


lemma reduce_nan:
  "NaN \<in> set l \<Longrightarrow> builtin_reduce better l cur = Inl NanException"
proof (induction l arbitrary: cur)
  case Nil
  then show ?case by simp
next
  case (Cons x l)
  show ?case
  proof (cases "x = NaN")
    case True
    then show ?thesis by (simp add: ensure_nonan_def isnan_iff)
  next
    case False
    with Cons.prems have "NaN \<in> set l" by simp
    then show ?thesis using False Cons.IH by (simp add: ensure_nonan_def isnan_iff)
  qed
qed

lemma reduce_best:
  assumes refl: "\<And>a. a \<noteq> NaN \<Longrightarrow> le a a"
    and trans: "\<And>a b c. le a b \<Longrightarrow> le b c \<Longrightarrow> le a c"
    and better: "\<And>a b. better a b \<Longrightarrow> le a b"
    and total: "\<And>a b. a \<noteq> NaN \<Longrightarrow> b \<noteq> NaN \<Longrightarrow> \<not> better a b \<Longrightarrow> le b a"
  shows "NaN \<notin> set l \<Longrightarrow> best \<noteq> NaN \<Longrightarrow>
         \<exists>v. builtin_reduce better l (Some best) = Inr v
             \<and> v \<in> insert best (set l) \<and> (\<forall>y \<in> insert best (set l). le v y)"
proof (induction l arbitrary: best)
  case Nil
  then show ?case using refl by simp
next
  case (Cons x l)
  from Cons.prems have x: "x \<noteq> NaN" and l: "NaN \<notin> set l" by auto
  let ?b = "if better x best then x else best"
  have b: "?b \<noteq> NaN" using x Cons.prems(2) by simp
  from Cons.IH [OF l b] obtain v where
    v: "builtin_reduce better l (Some ?b) = Inr v"
    and mem: "v \<in> insert ?b (set l)"
    and low: "\<forall>y \<in> insert ?b (set l). le v y"
    by blast
  have step: "builtin_reduce better (x # l) (Some best) = Inr v"
    using v x by (auto simp: ensure_nonan_def isnan_iff split: if_splits)
  have vb: "le v ?b" using low by blast
  have "le ?b x \<and> le ?b best"
    using refl better total x Cons.prems(2) by auto
  then have "le v x" and "le v best" using vb trans by blast+
  moreover have "v \<in> insert best (set (x # l))" using mem by (auto split: if_splits)
  ultimately show ?case using step low by auto
qed

lemma reduce_nonempty:
  assumes refl: "\<And>a. a \<noteq> NaN \<Longrightarrow> le a a"
    and trans: "\<And>a b c. le a b \<Longrightarrow> le b c \<Longrightarrow> le a c"
    and better: "\<And>a b. better a b \<Longrightarrow> le a b"
    and total: "\<And>a b. a \<noteq> NaN \<Longrightarrow> b \<noteq> NaN \<Longrightarrow> \<not> better a b \<Longrightarrow> le b a"
    and l: "l \<noteq> []" "NaN \<notin> set l"
  shows "\<exists>v. builtin_reduce better l None = Inr v \<and> v \<in> set l \<and> (\<forall>y \<in> set l. le v y)"
proof -
  from l obtain x xs where xs: "l = x # xs" by (cases l) auto
  with l have x: "x \<noteq> NaN" and n: "NaN \<notin> set xs" by auto
  have "builtin_reduce better l None = builtin_reduce better xs (Some x)"
    using xs x by (simp add: ensure_nonan_def isnan_iff)
  then show ?thesis
    using reduce_best [of le better xs x, OF refl trans better total n x] xs by auto
qed

lemma min_no_nan:
  "l \<noteq> [] \<Longrightarrow> NaN \<notin> set l \<Longrightarrow>
   \<exists>v. min_fpu l = Inr v \<and> v \<in> set l \<and> (\<forall>y \<in> set l. fle v y)"
proof -
  assume l: "l \<noteq> []" "NaN \<notin> set l"
  have "\<exists>v. builtin_reduce flt l None = Inr v \<and> v \<in> set l \<and> (\<forall>y \<in> set l. fle v y)"
    by (rule reduce_nonempty [of fle flt, OF fle_refl fle_trans flt_imp_fle fle_total l])
  then show ?thesis by (auto simp: min_fpu_def)
qed

lemma max_no_nan:
  "l \<noteq> [] \<Longrightarrow> NaN \<notin> set l \<Longrightarrow>
   \<exists>v. max_fpu l = Inr v \<and> v \<in> set l \<and> (\<forall>y \<in> set l. fle y v)"
proof -
  assume l: "l \<noteq> []" "NaN \<notin> set l"
  have "\<exists>v. builtin_reduce fgt l None = Inr v \<and> v \<in> set l \<and> (\<forall>y \<in> set l. (\<lambda>a b. fle b a) v y)"
  proof (rule reduce_nonempty [of "\<lambda>a b. fle b a" fgt, OF _ _ _ _ l])
    show "\<And>a. a \<noteq> NaN \<Longrightarrow> fle a a" by (rule fle_refl)
    show "\<And>a b c. fle b a \<Longrightarrow> fle c b \<Longrightarrow> fle c a" using fle_trans by blast
    show "\<And>a b. fgt a b \<Longrightarrow> fle b a" by (simp add: fgt_def flt_imp_fle)
    show "\<And>a b. a \<noteq> NaN \<Longrightarrow> b \<noteq> NaN \<Longrightarrow> \<not> fgt a b \<Longrightarrow> fle a b"
      by (simp add: fgt_def fle_total)
  qed
  then show ?thesis by (auto simp: max_fpu_def)
qed

text \<open>
  C4.  For every non-empty list \<open>l\<close> of doubles: when some element is NaN, \<open>min(l)\<close> and
  \<open>max(l)\<close> both return NaN, wherever it stands; when none is, \<open>min(l)\<close> returns an
  element of \<open>l\<close> that is less than or equal to every element, and \<open>max(l)\<close> one that
  is greater than or equal to every element.
\<close>

theorem min_max_nan_aware:
  "l \<noteq> [] \<Longrightarrow>
   (if \<exists>x \<in> set l. isnan x then min_fpu l = Inr nan \<and> max_fpu l = Inr nan \<and> isnan nan
    else \<exists>a b. min_fpu l = Inr a \<and> a \<in> set l \<and> (\<forall>y \<in> set l. fle a y)
             \<and> max_fpu l = Inr b \<and> b \<in> set l \<and> (\<forall>y \<in> set l. fle y b))"
proof (cases "NaN \<in> set l")
  case True
  then have "\<exists>x \<in> set l. isnan x" by (auto simp: isnan_iff)
  moreover have "min_fpu l = Inr nan" "max_fpu l = Inr nan"
    using True by (simp_all add: min_fpu_def max_fpu_def reduce_nan)
  ultimately show ?thesis by (simp add: nan_def isnan_iff)
next
  case False
  assume l: "l \<noteq> []"
  from False have no: "\<not> (\<exists>x \<in> set l. isnan x)" by (auto simp: isnan_iff)
  show ?thesis
    using min_no_nan [OF l False] max_no_nan [OF l False] no by auto
qed

theorem min_max_nan_aware_witness:
  "[Finite 1 0, NInf, Finite 3 (-1)] \<noteq> []
   \<and> min_fpu [Finite 1 0, NInf, Finite 3 (-1)] = Inr NInf
   \<and> max_fpu [Finite 1 0, NInf, Finite 3 (-1)] = Inr (Finite 3 (-1))
   \<and> [Finite 1 0, NaN, Finite 0 0] \<noteq> []
   \<and> min_fpu [Finite 1 0, NaN, Finite 0 0] = Inr NaN
   \<and> max_fpu [Finite 1 0, NaN, Finite 0 0] = Inr NaN"
proof -
  have a: "min_fpu [Finite 1 0, NInf, Finite 3 (-1)] = Inr NInf" by code_simp
  have b: "max_fpu [Finite 1 0, NInf, Finite 3 (-1)] = Inr (Finite 3 (-1))" by code_simp
  have c: "min_fpu [Finite 1 0, NaN, Finite 0 0] = Inr NaN" by code_simp
  have d: "max_fpu [Finite 1 0, NaN, Finite 0 0] = Inr NaN" by code_simp
  show ?thesis
    using min_max_nan_aware [of "[Finite 1 0, NInf, Finite 3 (-1)]"]
          min_max_nan_aware [of "[Finite 1 0, NaN, Finite 0 0]"] a b c d
    by simp
qed

text \<open>
  C9.  On the empty sequence \<open>min\<close> and \<open>max\<close> raise the built-in's \<open>ValueError\<close> (the
  specification's EmptyReductionError): no value and no NaN is returned.
\<close>

theorem min_max_empty:
  "min_fpu [] = Inl ValueError \<and> max_fpu [] = Inl ValueError"
  by (simp add: min_fpu_def max_fpu_def)

subsection \<open>Nudging\<close>

lemma nearest_even_unit:
  assumes j: "1 \<le> j" and d: "d = 1 \<or> d = -1"
  shows "nearest_even d j = 0"
proof -
  have big: "(2::int) \<le> 2 ^ j" using j self_le_power [of "2::int" j] by simp
  from d show ?thesis
  proof
    assume "d = 1"
    moreover have "(1::int) div 2 ^ j = 0" using big by (intro div_pos_pos_trivial) auto
    moreover have "(1::int) mod 2 ^ j = 1" using big by (intro mod_pos_pos_trivial) auto
    ultimately show ?thesis using big by (simp add: nearest_even_def Let_def)
  next
    assume d: "d = -1"
    have dv: "(- 1::int) div 2 ^ j = - 1"
      using big by (simp add: div_eq_minus1)
    have md: "(- 1::int) mod 2 ^ j = 2 ^ j - 1"
      using big by (simp add: zmod_minus1)
    show ?thesis
      using big unfolding d nearest_even_def Let_def dv md by auto
  qed
qed

lemma to_double_tiny:
  assumes d: "d = 1 \<or> d = -1" and k: "k < -1074"
  shows "to_double d k = Finite 0 (-1074)"
proof -
  have b: "bitlen \<bar>d\<bar> = 1" using d by (auto simp: bitlen_alt_def)
  have u: "max (k + bitlen \<bar>d\<bar> - 53) (-1074) = -1074" unfolding b using k by simp
  have ne: "nearest_even d (nat (-1074 - k)) = 0"
    using k d by (intro nearest_even_unit) auto
  show ?thesis unfolding to_double_def Let_def u ne using k by simp
qed

lemma to_double_unit:
  assumes d: "d = 1 \<or> d = -1" and k: "-1074 \<le> k" "k \<le> 0"
  shows "to_double d k = Finite d k"
proof -
  have b: "bitlen \<bar>d\<bar> = 1" using d by (auto simp: bitlen_alt_def)
  have u: "max (k + bitlen \<bar>d\<bar> - 53) (-1074) \<le> k" unfolding b using k by simp
  show ?thesis unfolding to_double_def Let_def using u k b by simp
qed

lemma to_double_subnormal:
  assumes "\<bar>m\<bar> < 2 ^ 52"
  shows "to_double m (-1074) = Finite m (-1074)"
proof -
  have "bitlen \<bar>m\<bar> \<le> 52" using bitlen_le [of m 52] assms by simp
  then show ?thesis by (simp add: to_double_def Let_def)
qed

text \<open>
  For every nonzero subnormal double and both directions, \<open>f * epsneg\<close> and
  \<open>f * eps\<close> are at most half the spacing \<open>2 ^ -1074\<close> of the subnormal doubles and
  round to zero: \<open>nudge\<close> returns its argument.
\<close>

lemma nudge_subnormal_unchanged:
  assumes m: "m \<noteq> 0" "\<bar>m\<bar> < 2 ^ 52" and d: "dir = 1 \<or> dir = -1"
  shows "nudge (Finite m (-1074)) dir = Inr (Finite m (-1074))"
proof -
  let ?L = "bitlen \<bar>m\<bar>"
  let ?k = "?L - 1075"
  have L1: "1 \<le> ?L" using m(1) by (rule bitlen_ge_1)
  have L52: "?L \<le> 52" using bitlen_le [of m 52] m(2) by simp
  have fr: "snd (frexp (Finite m (-1074))) - 1 = ?k" using m(1) by simp
  have p: "pow2 ?k = PyFloat (Finite 1 ?k)"
    using L1 L52 to_double_unit [of 1 ?k] by (simp add: pow2_def)
  have d0: "to_double dir 0 = Finite dir 0" using d by (intro to_double_unit) auto
  have f: "as_double (int_times dir (pow2 ?k)) = Finite dir ?k"
    unfolding p using d0 to_double_unit [OF d, of ?k] L1 L52 by simp
  have a: "fmul (Finite dir ?k) epsneg = Finite 0 (-1074)"
    using to_double_tiny [OF d, of "?k - 53"] L52 by (simp add: epsneg_def)
  have b: "fmul (Finite dir ?k) eps = Finite 0 (-1074)"
    using to_double_tiny [OF d, of "?k - 52"] L52 by (simp add: eps_def)
  have s: "fadd (Finite m (-1074)) (Finite 0 (-1074)) = Finite m (-1074)"
    using to_double_subnormal [OF m(2)] by simp
  have e: "feq (Finite m (-1074)) (Finite m (-1074))" by simp
  show ?thesis
    unfolding nudge_def Let_def fr f a b s using d e by auto
qed

lemma nearest_even_scale: "nearest_even (a * 2 ^ j) (i + j) = nearest_even a i"
proof -
  have d: "(a * 2 ^ j) div 2 ^ (i + j) = a div 2 ^ i"
    by (simp add: power_add)
  have m: "(a * 2 ^ j) mod 2 ^ (i + j) = (a mod 2 ^ i) * 2 ^ j"
    by (simp add: power_add mult_mod_left mult.commute)
  have c1: "2 * ((a mod 2 ^ i) * 2 ^ j) > (2::int) ^ (i + j) \<longleftrightarrow> 2 * (a mod 2 ^ i) > 2 ^ i"
    by (simp add: power_add)
  have c2: "2 * ((a mod 2 ^ i) * 2 ^ j) = (2::int) ^ (i + j) \<longleftrightarrow> 2 * (a mod 2 ^ i) = 2 ^ i"
    by (simp add: power_add)
  show ?thesis
    unfolding nearest_even_def Let_def d m c1 c2 ..
qed

lemma same_value_Finite:
  "same_value (Finite a e) (Finite b f) \<longleftrightarrow> dyadic a e = dyadic b f"
  unfolding same_value_def feq_Finite by (auto simp: feq_Finite [symmetric])

lemma same_value_refl: "same_value x x"
  by (simp add: same_value_def)

lemma to_double_zero: "\<exists>x. to_double 0 e = Finite 0 x"
  by (simp add: to_double_def Let_def nearest_even_def)

lemma dyadic_zero: "dyadic 0 e = 0"
  by (simp add: dyadic_def)

lemma to_double_last_place:
  "to_double m e =
     (let u = last_place m e;
          q = (if u \<le> e then m else nearest_even m (nat (u - e)));
          x = (if u \<le> e then e else u)
      in overflow m q x (Finite q x))"
  unfolding to_double_def last_place_def overflow_def ..

lemma to_double_exact:
  assumes "last_place m e \<le> e"
  shows "to_double m e = overflow m m e (Finite m e)"
  unfolding to_double_last_place Let_def using assms by (simp only: if_True)

lemma to_double_round:
  assumes "e < last_place m e"
  shows "to_double m e =
     overflow m (nearest_even m (nat (last_place m e - e))) (last_place m e)
       (Finite (nearest_even m (nat (last_place m e - e))) (last_place m e))"
proof -
  have "\<not> last_place m e \<le> e" using assms by simp
  then show ?thesis unfolding to_double_last_place Let_def by (simp only: if_False)
qed

lemma last_place_scaled:
  "a \<noteq> 0 \<Longrightarrow> last_place (a * 2 ^ j) (e - int j) = last_place a e"
  by (simp add: last_place_def bitlen_scaled)

lemma overflow_scaled:
  assumes a: "a \<noteq> 0" and x: "x = y - int i"
  shows "overflow (a * 2 ^ j) (a * 2 ^ i) x d = overflow a a y d"
proof -
  have "bitlen \<bar>a * 2 ^ i\<bar> + x = bitlen \<bar>a\<bar> + y"
    using bitlen_scaled [OF a, of i] x by simp
  moreover have "0 < a * 2 ^ j \<longleftrightarrow> 0 < a" by (simp add: zero_less_mult_iff)
  moreover have "a * 2 ^ i \<noteq> 0" using a by simp
  ultimately show ?thesis using a by (simp only: overflow_def)
qed

lemma overflow_same:
  "same_value d d' \<Longrightarrow> same_value (overflow m q x d) (overflow m q x d')"
  by (simp add: overflow_def same_value_refl)

lemma to_double_scale:
  "same_value (to_double (a * 2 ^ j) (e - int j)) (to_double a e)"
proof (cases "a = 0")
  case True
  obtain x where x: "to_double 0 (e - int j) = Finite 0 x" using to_double_zero by blast
  obtain y where y: "to_double 0 e = Finite 0 y" using to_double_zero by blast
  show ?thesis using True x y by (simp add: same_value_Finite dyadic_zero)
next
  case False
  define u where "u = last_place a e"
  have u': "last_place (a * 2 ^ j) (e - int j) = u"
    unfolding u_def using False by (rule last_place_scaled)
  consider (low) "u \<le> e - int j" | (mid) "e - int j < u" "u \<le> e" | (high) "e < u"
    by linarith
  then show ?thesis
  proof cases
    case low
    then have ue: "u \<le> e" by linarith
    have l: "to_double (a * 2 ^ j) (e - int j)
             = overflow (a * 2 ^ j) (a * 2 ^ j) (e - int j) (Finite (a * 2 ^ j) (e - int j))"
      using low u' by (intro to_double_exact) simp
    have l': "\<dots> = overflow a a e (Finite (a * 2 ^ j) (e - int j))"
      using False by (intro overflow_scaled) simp_all
    have r: "to_double a e = overflow a a e (Finite a e)"
      using ue u_def by (intro to_double_exact) simp
    have "same_value (Finite (a * 2 ^ j) (e - int j)) (Finite a e)"
      by (simp only: same_value_Finite dyadic_scale)
    then show ?thesis unfolding l l' r by (rule overflow_same)
  next
    case mid
    define i where "i = nat (e - u)"
    define k where "k = nat (u - (e - int j))"
    have ik: "i + k = j" unfolding i_def k_def using mid by linarith
    have split: "a * 2 ^ j = (a * 2 ^ i) * 2 ^ k"
      using ik by (simp add: power_add [symmetric] mult.assoc)
    have ne: "nearest_even (a * 2 ^ j) k = a * 2 ^ i"
      unfolding split by (rule nearest_even_exact)
    have ui: "u = e - int i" unfolding i_def using mid by simp
    have "to_double (a * 2 ^ j) (e - int j)
          = overflow (a * 2 ^ j) (nearest_even (a * 2 ^ j) (nat (u - (e - int j)))) u
              (Finite (nearest_even (a * 2 ^ j) (nat (u - (e - int j)))) u)"
      using to_double_round [of "e - int j" "a * 2 ^ j"] mid(1) unfolding u' by blast
    then have l: "to_double (a * 2 ^ j) (e - int j)
          = overflow (a * 2 ^ j) (a * 2 ^ i) u (Finite (a * 2 ^ i) u)"
      unfolding k_def [symmetric] ne .
    have l': "\<dots> = overflow a a e (Finite (a * 2 ^ i) u)"
      using False ui by (intro overflow_scaled)
    have r: "to_double a e = overflow a a e (Finite a e)"
      using mid(2) u_def by (intro to_double_exact) simp
    have "same_value (Finite (a * 2 ^ i) u) (Finite a e)"
      unfolding ui by (simp only: same_value_Finite dyadic_scale)
    then show ?thesis unfolding l l' r by (rule overflow_same)
  next
    case high
    have k: "nat (u - (e - int j)) = nat (u - e) + j" using high by linarith
    have ne: "nearest_even (a * 2 ^ j) (nat (u - (e - int j))) = nearest_even a (nat (u - e))"
      unfolding k by (rule nearest_even_scale)
    have sg: "\<And>q x d. overflow (a * 2 ^ j) q x d = overflow a q x d"
      by (simp add: overflow_def zero_less_mult_iff)
    have "e - int j < u" using high by linarith
    then have "to_double (a * 2 ^ j) (e - int j)
          = overflow (a * 2 ^ j) (nearest_even (a * 2 ^ j) (nat (u - (e - int j)))) u
              (Finite (nearest_even (a * 2 ^ j) (nat (u - (e - int j)))) u)"
      using to_double_round [of "e - int j" "a * 2 ^ j"] unfolding u' by blast
    then have l: "to_double (a * 2 ^ j) (e - int j)
          = overflow a (nearest_even a (nat (u - e))) u (Finite (nearest_even a (nat (u - e))) u)"
      unfolding ne sg .
    have r: "to_double a e
          = overflow a (nearest_even a (nat (u - e))) u (Finite (nearest_even a (nat (u - e))) u)"
      using to_double_round [of e a] high unfolding u_def by blast
    show ?thesis unfolding l r by (rule same_value_refl)
  qed
qed

lemma same_value_sym: "same_value x y \<Longrightarrow> same_value y x"
  by (cases x; cases y) (auto simp: same_value_def feq_Finite simp del: feq.simps(1))

lemma same_value_trans: "same_value x y \<Longrightarrow> same_value y z \<Longrightarrow> same_value x z"
  by (cases x; cases y; cases z) (auto simp: same_value_def feq_Finite simp del: feq.simps(1))

lemma same_value_FiniteD:
  "same_value x (Finite b f) \<Longrightarrow> \<exists>a e. x = Finite a e \<and> dyadic a e = dyadic b f"
  by (cases x) (auto simp: same_value_def feq_Finite simp del: feq.simps(1))

lemma dyadic_eq_scaled:
  assumes le: "e \<le> f" and eq: "dyadic a e = dyadic b f"
  shows "a = b * 2 ^ nat (f - e)"
proof -
  have "dyadic b f = of_int (b * 2 ^ nat (f - e)) * 2 powi e"
    using le by (rule dyadic_align)
  with eq have "real_of_int a * 2 powi e = of_int (b * 2 ^ nat (f - e)) * 2 powi e"
    by (simp only: dyadic_def)
  then have "real_of_int a = of_int (b * 2 ^ nat (f - e))" by simp
  then show ?thesis by (simp only: of_int_eq_iff)
qed

lemma to_double_value_le:
  assumes le: "e \<le> f" and eq: "dyadic a e = dyadic b f"
  shows "same_value (to_double a e) (to_double b f)"
proof -
  have a: "a = b * 2 ^ nat (f - e)" using le eq by (rule dyadic_eq_scaled)
  have e: "e = f - int (nat (f - e))" using le by simp
  show ?thesis
    using to_double_scale [of b "nat (f - e)" f] unfolding a [symmetric] e [symmetric] .
qed

lemma to_double_value:
  assumes eq: "dyadic a e = dyadic b f"
  shows "same_value (to_double a e) (to_double b f)"
proof (cases "e \<le> f")
  case True
  then show ?thesis using eq by (rule to_double_value_le)
next
  case False
  then have "f \<le> e" by simp
  then have "same_value (to_double b f) (to_double a e)"
    using eq [symmetric] by (rule to_double_value_le)
  then show ?thesis by (rule same_value_sym)
qed

lemma dyadic_add_aligned:
  "dyadic (m1 * 2 ^ nat (e1 - min e1 e2) + m2 * 2 ^ nat (e2 - min e1 e2)) (min e1 e2)
   = dyadic m1 e1 + dyadic m2 e2"
proof -
  let ?e = "min e1 e2"
  have a: "dyadic m1 e1 = of_int (m1 * 2 ^ nat (e1 - ?e)) * 2 powi ?e"
    by (rule dyadic_align) simp
  have b: "dyadic m2 e2 = of_int (m2 * 2 ^ nat (e2 - ?e)) * 2 powi ?e"
    by (rule dyadic_align) simp
  show ?thesis unfolding a b by (simp add: dyadic_def algebra_simps)
qed

lemma dyadic_mult: "dyadic (m1 * m2) (e1 + e2) = dyadic m1 e1 * dyadic m2 e2"
  using power_int_add [of "2::real" e1 e2] by (simp add: dyadic_def)

lemma fadd_value:
  "dyadic n k = dyadic m1 e1 + dyadic m2 e2 \<Longrightarrow>
   same_value (fadd (Finite m1 e1) (Finite m2 e2)) (to_double n k)"
  unfolding fadd.simps Let_def
  by (rule to_double_value) (simp only: dyadic_add_aligned)

lemma fmul_value:
  "dyadic n k = dyadic m1 e1 * dyadic m2 e2 \<Longrightarrow>
   same_value (fmul (Finite m1 e1) (Finite m2 e2)) (to_double n k)"
  unfolding fmul.simps
  by (rule to_double_value) (simp only: dyadic_mult)

lemma feq_cong: "same_value y y' \<Longrightarrow> feq y x = feq y' x"
  by (cases y; cases y'; cases x) (auto simp: same_value_def feq_Finite simp del: feq.simps(1))

lemma flt_cong_right: "same_value y y' \<Longrightarrow> flt x y = flt x y'"
  by (cases y; cases y'; cases x)
     (auto simp: same_value_def feq_Finite flt_Finite simp del: feq.simps(1) flt.simps(1))

lemma flt_cong_left: "same_value y y' \<Longrightarrow> flt y x = flt y' x"
  by (cases y; cases y'; cases x)
     (auto simp: same_value_def feq_Finite flt_Finite simp del: feq.simps(1) flt.simps(1))

lemma bitlen_ge:
  assumes "2 ^ n \<le> \<bar>m\<bar>"
  shows "int n < bitlen \<bar>m\<bar>"
proof -
  have "(0::int) < 2 ^ n" by simp
  with assms have pos: "0 < \<bar>m\<bar>" by linarith
  from bitlen_bounds [OF pos] have "\<bar>m\<bar> < 2 ^ nat (bitlen \<bar>m\<bar>)" by simp
  with assms have "(2::int) ^ n < 2 ^ nat (bitlen \<bar>m\<bar>)" by linarith
  then have "n < nat (bitlen \<bar>m\<bar>)" by simp
  then show ?thesis by linarith
qed

lemma bitlen_eq:
  assumes "2 ^ n \<le> \<bar>m\<bar>" and "\<bar>m\<bar> < 2 ^ Suc n"
  shows "bitlen \<bar>m\<bar> = int n + 1"
  using bitlen_ge [OF assms(1)] bitlen_le [OF assms(2)] by simp

lemma bitlen_normal: "is_normal m e \<Longrightarrow> bitlen \<bar>m\<bar> = 53"
  using bitlen_eq [of 52 m] by (simp add: is_normal_def)

lemma bitlen_unit: "d = 1 \<or> d = -1 \<Longrightarrow> bitlen \<bar>d\<bar> = 1"
  by (auto simp: bitlen_alt_def)

lemma to_double_unit_wide:
  assumes d: "d = 1 \<or> d = -1" and k: "-1074 \<le> k" "k \<le> 1023"
  shows "to_double d k = Finite d k"
proof -
  have b: "bitlen \<bar>d\<bar> = 1" using d by (rule bitlen_unit)
  have "last_place d k \<le> k" unfolding last_place_def b using k by simp
  then have "to_double d k = overflow d d k (Finite d k)" by (rule to_double_exact)
  then show ?thesis unfolding overflow_def b using k by simp
qed

text \<open>The scale factor \<open>f\<close> of \<open>nudge\<close> has the value \<open>dir * 2 ^ k\<close>.\<close>

lemma scale_factor:
  assumes d: "d = 1 \<or> d = -1" and k: "-1074 \<le> k" "k \<le> 1023"
  shows "\<exists>a b. as_double (int_times d (pow2 k)) = Finite a b \<and> dyadic a b = dyadic d k"
proof (cases "0 \<le> k")
  case True
  have "same_value (to_double (d * 2 ^ nat k) (k - int (nat k))) (to_double d k)"
    by (rule to_double_scale)
  then have "same_value (to_double (d * 2 ^ nat k) 0) (Finite d k)"
    using True to_double_unit_wide [OF d k] by simp
  then have "same_value (as_double (int_times d (pow2 k))) (Finite d k)"
    using True by (simp add: pow2_def)
  then show ?thesis by (rule same_value_FiniteD)
next
  case False
  then have k0: "k \<le> 0" by simp
  have p: "pow2 k = PyFloat (Finite 1 k)"
    using False to_double_unit [of 1 k] k by (simp add: pow2_def)
  have d0: "to_double d 0 = Finite d 0" using d by (intro to_double_unit) auto
  have "as_double (int_times d (pow2 k)) = Finite d k"
    unfolding p using d0 to_double_unit [OF d k(1) k0] by simp
  then show ?thesis by simp
qed

lemma nearest_even_half:
  "d = 1 \<or> d = -1 \<Longrightarrow> nearest_even (2 * m + d) 1 = (if even m then m else m + d)"
proof (erule disjE)
  assume d: "d = 1"
  have "(2 * m + 1) div 2 = m" "(2 * m + 1) mod 2 = 1" by presburger+
  then show ?thesis unfolding d nearest_even_def Let_def by simp
next
  assume d: "d = -1"
  have "(2 * m + - 1) div 2 = m - 1" "(2 * m + - 1) mod 2 = 1" by presburger+
  then show ?thesis unfolding d nearest_even_def Let_def by simp
qed

lemma dyadic_less_iff: "dyadic a e < dyadic b e \<longleftrightarrow> a < b"
  by (simp add: dyadic_def)

lemma dyadic_eq_iff: "dyadic a e = dyadic b e \<longleftrightarrow> a = b"
  by (simp add: dyadic_def)

lemma dyadic_double: "dyadic (2 * m) (e - 1) = dyadic m e"
  using dyadic_scale [of m 1 e] by (simp add: mult.commute)

lemma dyadic_add: "dyadic a e + dyadic b e = dyadic (a + b) e"
  by (simp add: dyadic_def algebra_simps)

text \<open>A value with at most 53 significant bits (or equal to \<open>2 ^ 53\<close>) in range is kept.\<close>

lemma to_double_representable:
  assumes n: "\<bar>n\<bar> \<le> 2 ^ 53" and e: "-1074 \<le> e" and r: "bitlen \<bar>n\<bar> + e \<le> 1024"
  shows "\<exists>q x. to_double n e = Finite q x \<and> dyadic q x = dyadic n e"
proof (cases "\<bar>n\<bar> < 2 ^ 53")
  case True
  then have "bitlen \<bar>n\<bar> \<le> 53" by (rule bitlen_le_53)
  then have "last_place n e \<le> e" unfolding last_place_def using e by simp
  then have "to_double n e = overflow n n e (Finite n e)" by (rule to_double_exact)
  then have "to_double n e = Finite n e" unfolding overflow_def using r by simp
  then show ?thesis by simp
next
  case False
  with n have eq: "\<bar>n\<bar> = 2 ^ 53" by simp
  define c where "c = n div 2"
  have "\<bar>n\<bar> = 9007199254740992" using eq by simp
  then have "n = n div 2 * 2 \<and> \<bar>n div 2\<bar> = 4503599627370496" by presburger
  then have nc: "n = c * 2 ^ 1" and c: "\<bar>c\<bar> = 2 ^ 52" unfolding c_def by simp_all
  have bl: "bitlen \<bar>c\<bar> = 53" using bitlen_eq [of 52 c] c by simp
  have bn: "bitlen \<bar>n\<bar> = 54" using bitlen_eq [of 53 n] eq by simp
  have "last_place c (e + 1) \<le> e + 1" unfolding last_place_def bl using e by simp
  then have "to_double c (e + 1) = overflow c c (e + 1) (Finite c (e + 1))"
    by (rule to_double_exact)
  then have ex: "to_double c (e + 1) = Finite c (e + 1)"
    unfolding overflow_def bl using r bn by simp
  have "same_value (to_double (c * 2 ^ 1) (e + 1 - int 1)) (to_double c (e + 1))"
    by (rule to_double_scale)
  then have "same_value (to_double n e) (Finite c (e + 1))"
    unfolding nc [symmetric] ex by simp
  then obtain q x where q: "to_double n e = Finite q x" "dyadic q x = dyadic c (e + 1)"
    using same_value_FiniteD by blast
  have "dyadic (c * 2 ^ 1) (e + 1 - int 1) = dyadic c (e + 1)" by (rule dyadic_scale)
  then have "dyadic n e = dyadic c (e + 1)" unfolding nc [symmetric] by simp
  then show ?thesis using q by simp
qed

text \<open>The tie \<open>(2 * m + d) * 2 ^ (e - 1)\<close> between two neighbouring doubles.\<close>

lemma to_double_tie:
  assumes d: "d = 1 \<or> d = -1" and b: "bitlen \<bar>2 * m + d\<bar> = 54" and e: "-1074 \<le> e"
  shows "to_double (2 * m + d) (e - 1)
         = (let q = (if even m then m else m + d)
            in overflow (2 * m + d) q e (Finite q e))"
proof -
  have lp: "last_place (2 * m + d) (e - 1) = e" unfolding last_place_def b using e by simp
  have "e - 1 < last_place (2 * m + d) (e - 1)" unfolding lp by simp
  from to_double_round [OF this] show ?thesis
    unfolding lp Let_def using nearest_even_half [OF d, of m] by simp
qed

lemma nudge_unfold:
  assumes n: "is_normal m e" and d: "d = 1 \<or> d = -1"
  shows "\<exists>a b. dyadic a b = dyadic d (52 + e) \<and>
           nudge (Finite m e) d =
             (if \<not> feq (fadd (Finite m e) (fmul (Finite a b) epsneg)) (Finite m e)
              then Inr (fadd (Finite m e) (fmul (Finite a b) epsneg))
              else Inr (fadd (Finite m e) (fmul (Finite a b) eps)))"
proof -
  have bl: "bitlen \<bar>m\<bar> = 53" using n by (rule bitlen_normal)
  have m0: "m \<noteq> 0" using n by (auto simp: is_normal_def)
  have fr: "snd (frexp (Finite m e)) - 1 = 52 + e" using m0 bl by simp
  have k: "-1074 \<le> 52 + e" "52 + e \<le> 1023" using n by (simp_all add: is_normal_def)
  from scale_factor [OF d k] obtain a b where
    f: "as_double (int_times d (pow2 (52 + e))) = Finite a b" and v: "dyadic a b = dyadic d (52 + e)"
    by blast
  have "nudge (Finite m e) d =
             (if \<not> feq (fadd (Finite m e) (fmul (Finite a b) epsneg)) (Finite m e)
              then Inr (fadd (Finite m e) (fmul (Finite a b) epsneg))
              else Inr (fadd (Finite m e) (fmul (Finite a b) eps)))"
    unfolding nudge_def Let_def fr f using d by auto
  with v show ?thesis by blast
qed

lemma scaled_increment:
  assumes v: "dyadic a b = dyadic d (52 + e)"
  shows "same_value (fmul (Finite a b) (Finite 1 (- j))) (to_double d (52 + e - j))"
proof -
  have "dyadic (d * 1) (52 + e + (- j)) = dyadic d (52 + e) * dyadic 1 (- j)"
    by (rule dyadic_mult)
  then have "dyadic d (52 + e - j) = dyadic a b * dyadic 1 (- j)"
    unfolding v by simp
  then show ?thesis by (rule fmul_value)
qed

lemma increment_eps:
  assumes v: "dyadic a b = dyadic d (52 + e)" and d: "d = 1 \<or> d = -1"
    and e: "-1074 \<le> e" "e \<le> 971"
  shows "same_value (fadd (Finite m e) (fmul (Finite a b) eps)) (to_double (m + d) e)"
proof -
  have "same_value (fmul (Finite a b) eps) (to_double d (52 + e - 52))"
    unfolding eps_def using scaled_increment [OF v, of 52] by simp
  moreover have "to_double d e = Finite d e" using d e by (intro to_double_unit_wide) simp_all
  ultimately have "same_value (fmul (Finite a b) eps) (Finite d e)" by simp
  then obtain a2 b2 where p: "fmul (Finite a b) eps = Finite a2 b2"
    and pv: "dyadic a2 b2 = dyadic d e"
    using same_value_FiniteD by blast
  have "dyadic (m + d) e = dyadic m e + dyadic a2 b2" unfolding pv by (simp only: dyadic_add)
  then show ?thesis unfolding p by (rule fadd_value)
qed

lemma increment_epsneg:
  assumes v: "dyadic a b = dyadic d (52 + e)" and d: "d = 1 \<or> d = -1"
    and e: "-1073 \<le> e" "e \<le> 971"
  shows "same_value (fadd (Finite m e) (fmul (Finite a b) epsneg)) (to_double (2 * m + d) (e - 1))"
proof -
  have "same_value (fmul (Finite a b) epsneg) (to_double d (52 + e - 53))"
    unfolding epsneg_def using scaled_increment [OF v, of 53] by simp
  moreover have "to_double d (e - 1) = Finite d (e - 1)"
    using d e by (intro to_double_unit_wide) simp_all
  ultimately have "same_value (fmul (Finite a b) epsneg) (Finite d (e - 1))" by simp
  then obtain a1 b1 where p: "fmul (Finite a b) epsneg = Finite a1 b1"
    and pv: "dyadic a1 b1 = dyadic d (e - 1)"
    using same_value_FiniteD by blast
  have "dyadic (2 * m + d) (e - 1) = dyadic m e + dyadic a1 b1"
    unfolding pv dyadic_double [of m e, symmetric] by (simp only: dyadic_add)
  then show ?thesis unfolding p by (rule fadd_value)
qed

lemma increment_epsneg_tiny:
  assumes v: "dyadic a b = dyadic d (52 + e)" and d: "d = 1 \<or> d = -1"
    and e: "e = -1074"
  shows "same_value (fadd (Finite m e) (fmul (Finite a b) epsneg)) (to_double m e)"
proof -
  have "same_value (fmul (Finite a b) epsneg) (to_double d (52 + e - 53))"
    unfolding epsneg_def using scaled_increment [OF v, of 53] by simp
  moreover have "to_double d (-1075) = Finite 0 (-1074)"
    using d by (intro to_double_tiny) simp_all
  ultimately have "same_value (fmul (Finite a b) epsneg) (Finite 0 (-1074))"
    unfolding e by simp
  then obtain a1 b1 where p: "fmul (Finite a b) epsneg = Finite a1 b1"
    and pv: "dyadic a1 b1 = dyadic 0 (-1074)"
    using same_value_FiniteD by blast
  have "dyadic m e = dyadic m e + dyadic a1 b1" unfolding pv by (simp add: dyadic_zero)
  then show ?thesis unfolding p by (rule fadd_value)
qed

lemma moved_cong: "same_value y y' \<Longrightarrow> moved d x y = moved d x y'"
  unfolding moved_def using flt_cong_right [of y y' x] flt_cong_left [of y y' x] by simp

lemma moved_Finite:
  "d = 1 \<or> d = -1 \<Longrightarrow> dyadic q x = dyadic (n + d) e \<Longrightarrow> moved d (Finite n e) (Finite q x)"
  by (auto simp: moved_def flt_Finite dyadic_less_iff simp del: flt.simps(1))

lemma not_feq_Finite:
  "d = 1 \<or> d = -1 \<Longrightarrow> dyadic q x = dyadic (n + d) e \<Longrightarrow> \<not> feq (Finite q x) (Finite n e)"
  by (auto simp: feq_Finite dyadic_eq_iff simp del: feq.simps(1))

text \<open>The second increment, one unit in the last place, when it is the one returned.\<close>

lemma fallback_moves:
  assumes n: "is_normal m e" and d: "d = 1 \<or> d = -1"
    and v: "dyadic a b = dyadic d (52 + e)" and c: "even m \<or> e = -1074"
  shows "moved d (Finite m e) (fadd (Finite m e) (fmul (Finite a b) eps))"
proof -
  have e: "-1074 \<le> e" "e \<le> 971" and m: "\<bar>m\<bar> < 2 ^ 53"
    using n by (simp_all add: is_normal_def)
  have le: "\<bar>m + d\<bar> \<le> 2 ^ 53" using m d by auto
  have "bitlen \<bar>m + d\<bar> + e \<le> 1024"
  proof (cases "e = -1074")
    case True
    have "\<bar>m + d\<bar> < 2 ^ 54" using le by simp
    then have "bitlen \<bar>m + d\<bar> \<le> 54" using bitlen_le [of "m + d" 54] by simp
    then show ?thesis using True by simp
  next
    case False
    with c have ev: "even m" by simp
    have "\<bar>m + d\<bar> \<noteq> 2 ^ 53"
    proof
      assume "\<bar>m + d\<bar> = 2 ^ 53"
      then have "even (m + d)" by (metis even_abs_add_iff even_add even_numeral even_power
            zero_less_numeral abs_zero add.right_neutral)
      then show False using ev d by auto
    qed
    with le have "\<bar>m + d\<bar> < 2 ^ 53" by simp
    then have "bitlen \<bar>m + d\<bar> \<le> 53" by (rule bitlen_le_53)
    then show ?thesis using e by simp
  qed
  from to_double_representable [OF le e(1) this] obtain q x where
    q: "to_double (m + d) e = Finite q x" and qv: "dyadic q x = dyadic (m + d) e" by blast
  have "same_value (fadd (Finite m e) (fmul (Finite a b) eps)) (Finite q x)"
    using increment_eps [OF v d e, of m] unfolding q .
  then show ?thesis using moved_Finite [OF d qv] by (simp only: moved_cong)
qed

lemma same_value_PInf: "same_value y PInf \<Longrightarrow> y = PInf"
  by (cases y) (auto simp: same_value_def)

lemma same_value_NInf: "same_value y NInf \<Longrightarrow> y = NInf"
  by (cases y) (auto simp: same_value_def)

text \<open>The first increment, half a unit in the last place, when the sum is a tie.\<close>

lemma tie_odd:
  assumes n: "is_normal m e" and d: "d = 1 \<or> d = -1" and odd: "odd m"
    and b: "bitlen \<bar>2 * m + d\<bar> = 54"
    and y: "same_value y (to_double (2 * m + d) (e - 1))"
  shows "\<not> feq y (Finite m e) \<and> moved d (Finite m e) y"
proof -
  have e: "-1074 \<le> e" "e \<le> 971" and m: "\<bar>m\<bar> < 2 ^ 53"
    using n by (simp_all add: is_normal_def)
  have t: "to_double (2 * m + d) (e - 1)
           = overflow (2 * m + d) (m + d) e (Finite (m + d) e)"
    using to_double_tie [OF d b e(1)] odd by (simp add: Let_def)
  show ?thesis
  proof (cases "m + d \<noteq> 0 \<and> 1024 < bitlen \<bar>m + d\<bar> + e")
    case True
    then have "53 < bitlen \<bar>m + d\<bar>" using e by linarith
    then have big: "2 ^ 53 \<le> \<bar>m + d\<bar>" using bitlen_le_53 [of "m + d"] by fastforce
    show ?thesis
    proof (cases "d = 1")
      case True
      with big m have "0 < 2 * m + d" by linarith
      then have "to_double (2 * m + d) (e - 1) = PInf"
        unfolding t overflow_def using \<open>m + d \<noteq> 0 \<and> 1024 < bitlen \<bar>m + d\<bar> + e\<close> by simp
      with y have "y = PInf" by (simp add: same_value_PInf)
      then show ?thesis using True by (simp add: moved_def)
    next
      case False
      with d have dm: "d = -1" by simp
      with big m have "\<not> 0 < 2 * m + d" by linarith
      then have "to_double (2 * m + d) (e - 1) = NInf"
        unfolding t overflow_def using \<open>m + d \<noteq> 0 \<and> 1024 < bitlen \<bar>m + d\<bar> + e\<close> by simp
      with y have "y = NInf" by (simp add: same_value_NInf)
      then show ?thesis using dm by (simp add: moved_def)
    qed
  next
    case False
    then have "to_double (2 * m + d) (e - 1) = Finite (m + d) e"
      unfolding t overflow_def by simp
    with y have s: "same_value y (Finite (m + d) e)" by simp
    have "\<not> feq (Finite (m + d) e) (Finite m e)" using d by (intro not_feq_Finite) simp_all
    moreover have "moved d (Finite m e) (Finite (m + d) e)" using d by (intro moved_Finite) simp_all
    ultimately show ?thesis using s by (simp only: feq_cong [OF s] moved_cong [OF s] simp_thms)
  qed
qed

lemma tie_even:
  assumes n: "is_normal m e" and d: "d = 1 \<or> d = -1" and ev: "even m"
    and b: "bitlen \<bar>2 * m + d\<bar> = 54"
    and y: "same_value y (to_double (2 * m + d) (e - 1))"
  shows "feq y (Finite m e)"
proof -
  have e: "-1074 \<le> e" "e \<le> 971" using n by (simp_all add: is_normal_def)
  have bl: "bitlen \<bar>m\<bar> = 53" using n by (rule bitlen_normal)
  have "to_double (2 * m + d) (e - 1) = overflow (2 * m + d) m e (Finite m e)"
    using to_double_tie [OF d b e(1)] ev by (simp add: Let_def)
  then have "to_double (2 * m + d) (e - 1) = Finite m e"
    unfolding overflow_def bl using e by simp
  with y have s: "same_value y (Finite m e)" by simp
  show ?thesis unfolding feq_cong [OF s] by simp
qed

text \<open>The sum is not a tie when it falls into the finer binade below a power of two.\<close>

lemma below_binade:
  assumes n: "is_normal m e" and d: "d = 1 \<or> d = -1" and e1: "-1073 \<le> e"
    and s: "\<bar>2 * m + d\<bar> < 2 ^ 53"
    and y: "same_value y (to_double (2 * m + d) (e - 1))"
  shows "\<not> feq y (Finite m e) \<and> moved d (Finite m e) y"
proof -
  have e: "e \<le> 971" using n by (simp add: is_normal_def)
  have bl: "bitlen \<bar>2 * m + d\<bar> \<le> 53" using s by (rule bitlen_le_53)
  have le: "\<bar>2 * m + d\<bar> \<le> 2 ^ 53" using s by simp
  have r: "bitlen \<bar>2 * m + d\<bar> + (e - 1) \<le> 1024" using bl e by simp
  have e': "-1074 \<le> e - 1" using e1 by simp
  from to_double_representable [OF le e' r] obtain q x where
    q: "to_double (2 * m + d) (e - 1) = Finite q x"
    and qv: "dyadic q x = dyadic (2 * m + d) (e - 1)" by blast
  from y have sv: "same_value y (Finite q x)" unfolding q .
  have x: "dyadic m e = dyadic (2 * m) (e - 1)" by (simp only: dyadic_double)
  have "\<not> feq (Finite q x) (Finite m e)"
    using d by (auto simp: feq_Finite qv x dyadic_eq_iff simp del: feq.simps(1))
  moreover have "moved d (Finite m e) (Finite q x)"
    using d by (auto simp: moved_def flt_Finite qv x dyadic_less_iff simp del: flt.simps(1))
  ultimately show ?thesis by (simp only: feq_cong [OF sv] moved_cong [OF sv] simp_thms)
qed

text \<open>
  On every normal double the two-step increment does move the argument strictly in
  the direction asked for, and so it does on zero.
\<close>

lemma nudge_normal_moves:
  assumes n: "is_normal m e" and d: "d = 1 \<or> d = -1"
  shows "\<exists>y. nudge (Finite m e) d = Inr y \<and> moved d (Finite m e) y"
proof -
  have e: "-1074 \<le> e" "e \<le> 971" and m: "2 ^ 52 \<le> \<bar>m\<bar>" "\<bar>m\<bar> < 2 ^ 53"
    using n by (simp_all add: is_normal_def)
  from nudge_unfold [OF n d] obtain a b where
    v: "dyadic a b = dyadic d (52 + e)"
    and nd: "nudge (Finite m e) d =
             (if \<not> feq (fadd (Finite m e) (fmul (Finite a b) epsneg)) (Finite m e)
              then Inr (fadd (Finite m e) (fmul (Finite a b) epsneg))
              else Inr (fadd (Finite m e) (fmul (Finite a b) eps)))"
    by blast
  let ?y1 = "fadd (Finite m e) (fmul (Finite a b) epsneg)"
  let ?y2 = "fadd (Finite m e) (fmul (Finite a b) eps)"
  have first: "\<not> feq ?y1 (Finite m e) \<Longrightarrow> moved d (Finite m e) ?y1 \<Longrightarrow> ?thesis"
    unfolding nd by simp
  have second: "feq ?y1 (Finite m e) \<Longrightarrow> even m \<or> e = -1074 \<Longrightarrow> ?thesis"
    unfolding nd using fallback_moves [OF n d v] by simp
  show ?thesis
  proof (cases "e = -1074")
    case True
    have bl: "bitlen \<bar>m\<bar> = 53" using n by (rule bitlen_normal)
    have "last_place m e \<le> e" unfolding last_place_def bl using e by simp
    then have "to_double m e = overflow m m e (Finite m e)" by (rule to_double_exact)
    then have "to_double m e = Finite m e" unfolding overflow_def bl using e by simp
    then have s: "same_value ?y1 (Finite m e)"
      using increment_epsneg_tiny [OF v d True, of m] by simp
    have "feq ?y1 (Finite m e)" unfolding feq_cong [OF s] by simp
    then show ?thesis using True by (intro second) simp_all
  next
    case False
    with e have e1: "-1073 \<le> e" by simp
    have y: "same_value ?y1 (to_double (2 * m + d) (e - 1))"
      using v d e1 e(2) by (rule increment_epsneg)
    show ?thesis
    proof (cases "\<bar>2 * m + d\<bar> < 2 ^ 53")
      case True
      from below_binade [OF n d e1 True y] show ?thesis using first by blast
    next
      case False
      then have lo: "2 ^ 53 \<le> \<bar>2 * m + d\<bar>" by simp
      have hi: "\<bar>2 * m + d\<bar> < 2 ^ Suc 53" using m d by auto
      have b: "bitlen \<bar>2 * m + d\<bar> = 54" using bitlen_eq [OF lo hi] by simp
      show ?thesis
      proof (cases "even m")
        case True
        from tie_even [OF n d True b y] show ?thesis using True by (intro second) simp_all
      next
        case False
        from tie_odd [OF n d False b y] show ?thesis using first by blast
      qed
    qed
  qed
qed

lemma nudge_zero_moves:
  assumes d: "d = 1 \<or> d = -1"
  shows "\<exists>y. nudge (Finite 0 e) d = Inr y \<and> moved d (Finite 0 e) y"
proof -
  have p: "pow2 (-1) = PyFloat (Finite 1 (-1))"
    using to_double_unit [of 1 "-1"] by (simp add: pow2_def)
  have d0: "to_double d 0 = Finite d 0" using d by (intro to_double_unit) auto
  have d1: "to_double d (-1) = Finite d (-1)" using d by (intro to_double_unit) auto
  have f: "as_double (int_times d (pow2 (snd (frexp (Finite 0 e)) - 1))) = Finite d (-1)"
    using p d0 d1 by simp
  have i: "fmul (Finite d (-1)) epsneg = Finite d (-54)"
    using to_double_unit [OF d, of "-54"] by (simp add: epsneg_def)
  have "dyadic d (-54) = dyadic 0 e + dyadic d (-54)" by (simp add: dyadic_zero)
  then have "same_value (fadd (Finite 0 e) (Finite d (-54))) (to_double d (-54))"
    by (rule fadd_value)
  then have s: "same_value (fadd (Finite 0 e) (Finite d (-54))) (Finite d (-54))"
    using to_double_unit [OF d, of "-54"] by simp
  have z: "dyadic 0 e = dyadic 0 (-54)" by (simp add: dyadic_zero)
  have ne: "\<not> feq (Finite d (-54)) (Finite 0 e)"
    using d by (auto simp: feq_Finite z dyadic_eq_iff simp del: feq.simps(1))
  have mv: "moved d (Finite 0 e) (Finite d (-54))"
    using d by (auto simp: moved_def flt_Finite z dyadic_less_iff simp del: flt.simps(1))
  have "\<not> feq (fadd (Finite 0 e) (Finite d (-54))) (Finite 0 e)"
    using ne by (simp only: feq_cong [OF s] simp_thms)
  moreover have "moved d (Finite 0 e) (fadd (Finite 0 e) (Finite d (-54)))"
    using mv by (simp only: moved_cong [OF s])
  ultimately show ?thesis
    unfolding nudge_def Let_def f i using d by auto
qed

text \<open>Some values: above and below 1, at the largest finite double, at the smallest
  normal double, at 0, and with a direction that is not allowed.\<close>

lemma nudge_examples:
  "nudge (Finite 1 0) 1 = Inr (Finite (2 ^ 52 + 1) (-52))"
  "nudge (Finite 1 0) (-1) = Inr (Finite (2 ^ 53 - 1) (-53))"
  "nudge (Finite (2 ^ 53 - 1) 971) 1 = Inr PInf"
  "nudge (Finite (2 ^ 52) (-1074)) 1 = Inr (Finite (2 ^ 52 + 1) (-1074))"
  "nudge (Finite 0 0) 1 = Inr (Finite 1 (-54))"
  "nudge (Finite 1 0) 2 = Inl AssertionError"
  by code_simp+

text \<open>
  C7 fails on the code at the subnormal doubles.  For the smallest positive double
  \<open>x = 2 ^ -1074\<close>, both increments \<open>f * epsneg\<close> and \<open>f * eps\<close> round to zero, and
  \<open>nudge(x, +1)\<close> returns \<open>x\<close> itself, which is not greater than \<open>x\<close>.
\<close>

theorem nudge_smallest_subnormal:
  "nudge (Finite 1 (-1074)) 1 = Inr (Finite 1 (-1074))
   \<and> \<not> fgt (Finite 1 (-1074)) (Finite 1 (-1074))
   \<and> is_double 1 (-1074)"
  by code_simp


section \<open>Properties of power\<close>

lemma power_twice: "(x::'a::monoid_mult) ^ k * x ^ k = x ^ (2 * k)"
  by (simp add: mult_2 power_add)

lemma square_multiply_digits:
  "0 \<le> n \<Longrightarrow>
   square_multiply x (digits n l) 1 = square_multiply x l (x ^ nat n)"
proof (induction n l rule: digits.induct)
  case (1 n l)
  show ?case
  proof (cases "n > 0")
    case False
    with "1.prems" have "n = 0" by simp
    then show ?thesis by (simp add: digits.simps [of 0])
  next
    case True
    let ?q = "nat (n div 2)"
    have q: "0 \<le> n div 2" using True by simp
    have step: "square_multiply x (digits n l) 1
                = square_multiply x ((n mod 2) # l) (x ^ ?q)"
      using "1.IH" [OF True q] True by (simp add: digits.simps [of n])
    show ?thesis
    proof (cases "n mod 2 = 0")
      case True
      then have "n = 2 * (n div 2)" by presburger
      then have "nat n = 2 * ?q" using \<open>n > 0\<close> q by linarith
      then show ?thesis using step True by (simp add: power_twice)
    next
      case False
      then have "n = 2 * (n div 2) + 1" by presburger
      then have "nat n = Suc (2 * ?q)" using \<open>n > 0\<close> q by linarith
      then show ?thesis using step False by (simp add: power_twice power_commutes)
    qed
  qed
qed

text \<open>
  C5.  For every exponent \<open>n \<ge> 0\<close> and every \<open>x\<close> of a type with an associative
  multiplication and a unit (every ring is one), \<open>power(x, n)\<close> returns the \<open>n\<close>-fold
  product of \<open>x\<close>, and \<open>power(x, 0)\<close> returns 1.
\<close>

theorem power_repeated_product:
  "0 \<le> n \<Longrightarrow> power_fpu recip x n = Inr (x ^ nat n) \<and> power_fpu recip x 0 = Inr 1"
  using square_multiply_digits [of n x "[]"] square_multiply_digits [of 0 x "[]"]
  by (simp add: power_fpu.simps [of recip x])

theorem power_repeated_product_witness:
  "(0::int) \<le> 5 \<and> power_fpu int_recip (3::int) 5 = Inr 243 \<and> power_fpu int_recip (3::int) 0 = Inr 1"
  using power_repeated_product [of 5 int_recip "3::int"] by simp

text \<open>
  C10.  For every integer \<open>x \<ge> 2\<close> and every negative integer exponent, \<open>power(x, n)\<close>
  returns 0: the quotient \<open>1 / power(x, -n)\<close> is the integers' floor division.
\<close>

theorem power_negative_int_zero:
  "2 \<le> x \<Longrightarrow> n < 0 \<Longrightarrow> power_fpu int_recip x n = Inr 0"
proof -
  assume x: "2 \<le> x" and n: "n < 0"
  have p: "power_fpu int_recip x (- n) = Inr (x ^ nat (- n))"
    using n square_multiply_digits [of "- n" x "[]"]
    by (simp add: power_fpu.simps [of int_recip x "- n"])
  have "0 < nat (- n)" using n by simp
  then have "x ^ 1 \<le> x ^ nat (- n)"
    using x by (intro power_increasing) auto
  then have big: "1 < x ^ nat (- n)" using x by simp
  then have "1 div (x ^ nat (- n)) = 0"
    by simp
  then show ?thesis
    using n p big x by (simp add: int_recip_def power_fpu.simps [of int_recip x n])
qed

theorem power_negative_int_zero_witness:
  "(2::int) \<le> 2 \<and> (-3::int) < 0 \<and> power_fpu int_recip 2 (-3) = Inr 0"
  using power_negative_int_zero [of 2 "-3"] by simp

end
